theory Spec2Isabelle
  imports Complex_Main "HOL-Library.Sublist"
begin

section \<open>Strings\<close>

text \<open>
  A Python \<open>str\<close> is modelled as a \<open>string\<close> whose characters are the code points
  below 256 (Latin-1). On that range \<open>str.isspace\<close>, which is also the class \<open>\s\<close> of
  a \<open>str\<close> pattern and what \<open>str.strip()\<close> removes, holds of the code points 9-13, 28-32,
  133 and 160, and \<open>str.lower()\<close> maps \<open>A-Z\<close> and the upper-case letters 192-222 (without
  the multiplication sign 215) to the code point 32 above, which is setting bit 5.
\<close>

definition py_isspace :: "char \<Rightarrow> bool" where
  "py_isspace c = (let n = (of_char c :: nat) in
     (9 \<le> n \<and> n \<le> 13) \<or> (28 \<le> n \<and> n \<le> 32) \<or> n = 133 \<or> n = 160)"

definition py_isupper :: "char \<Rightarrow> bool" where
  "py_isupper c = (let n = (of_char c :: nat) in
     (65 \<le> n \<and> n \<le> 90) \<or> (192 \<le> n \<and> n \<le> 222 \<and> n \<noteq> 215))"

fun lower_char :: "char \<Rightarrow> char" where
  "lower_char (Char b0 b1 b2 b3 b4 b5 b6 b7) =
     (if py_isupper (Char b0 b1 b2 b3 b4 b5 b6 b7) then Char b0 b1 b2 b3 b4 True b6 b7
      else Char b0 b1 b2 b3 b4 b5 b6 b7)"

definition py_lower :: "string \<Rightarrow> string" where
  "py_lower s = map lower_char s"

definition py_strip :: "string \<Rightarrow> string" where
  "py_strip s = rev (dropWhile py_isspace (rev (dropWhile py_isspace s)))"

text \<open>\<open>re.sub(r"\s+", " ", s)\<close>: every maximal run of whitespace becomes one blank.\<close>

function re_sub_ws :: "string \<Rightarrow> string" where
  "re_sub_ws [] = []"
| "re_sub_ws (c # cs) =
     (if py_isspace c then CHR '' '' # re_sub_ws (dropWhile py_isspace cs)
      else c # re_sub_ws cs)"
  by pat_completeness auto
termination
  by (relation "measure length") (auto simp: less_Suc_eq_le length_dropWhile_le)

text \<open>\<open>sep.join(parts)\<close>.\<close>

fun py_join :: "string \<Rightarrow> string list \<Rightarrow> string" where
  "py_join sep [] = []"
| "py_join sep [x] = x"
| "py_join sep (x # y # ys) = x @ sep @ py_join sep (y # ys)"

text \<open>\<open>sub in s\<close> on strings: \<open>sub\<close> occurs in \<open>s\<close> as a contiguous substring.\<close>

fun py_in :: "string \<Rightarrow> string \<Rightarrow> bool" where
  "py_in sub [] = (sub = [])"
| "py_in sub (c # cs) = (prefix sub (c # cs) \<or> py_in sub cs)"

text \<open>\<open>DocXMLModifier._normalize_text\<close>: \<open>re.sub(r"\s+", " ", text.lower().strip())\<close>.\<close>

definition normalize_text :: "string \<Rightarrow> string" where
  "normalize_text text = re_sub_ws (py_strip (py_lower text))"

text \<open>
  A string in which every whitespace character is a blank that is followed by a
  character that is not whitespace, or by nothing: what \<open>re_sub_ws\<close> leaves.
\<close>

fun collapsed :: "string \<Rightarrow> bool" where
  "collapsed [] = True"
| "collapsed (c # cs) =
     ((if py_isspace c
       then c = CHR '' '' \<and> (case cs of [] \<Rightarrow> True | d # _ \<Rightarrow> \<not> py_isspace d)
       else True) \<and> collapsed cs)"

section \<open>The content schema\<close>

text \<open>
  The schema is the JSON object \<open>json.load\<close> returns, read by the code through
  \<open>dict.get(key, default)\<close> and \<open>dict[key]\<close>. A key the object may lack is an \<open>option\<close>:
  \<open>None\<close> is the absent key. The keys \<open>min_chars\<close> and \<open>max_chars\<close> are never read.
\<close>

record bullet_point =
  bullet_text :: "string option"
  bullet_keywords :: "string list option"

record section_dict =
  title :: "string option"
  company :: "string option"
  bullet_points :: "bullet_point list option"

record schema =
  experiences :: "section_dict list option"
  projects :: "section_dict list option"

text \<open>\<open>d.get(key, "")\<close> and \<open>d.get(key, [])\<close>.\<close>

definition get_str :: "string option \<Rightarrow> string" where
  "get_str v = (case v of None \<Rightarrow> [] | Some s \<Rightarrow> s)"

definition get_list :: "'a list option \<Rightarrow> 'a list" where
  "get_list v = (case v of None \<Rightarrow> [] | Some xs \<Rightarrow> xs)"

section \<open>The section matcher\<close>

text \<open>
  \<open>DocXMLModifier._find_matching_section\<close>, the loop over the sections, on the table
  text already normalized. The \<open>if\<close>/\<open>elif\<close> of the source returns the section or falls
  through to the bullet fallback: \<open>title_match\<close> says whether it returns. The test
  \<open>bullet_matches / total_bullets >= 0.5\<close> divides two integers into a float that is
  correctly rounded, and 0.5 is a float, so for fewer than \<open>2^53\<close> bullets it is
  \<open>total_bullets \<le> 2 * bullet_matches\<close>.
\<close>

fun match_sections :: "string \<Rightarrow> section_dict list \<Rightarrow> section_dict option" where
  "match_sections table_text [] = None"
| "match_sections table_text (section # sections) =
     (let title_n = normalize_text (get_str (title section));
          company_n = normalize_text (get_str (company section));
          title_match =
            (if title_n \<noteq> [] \<and> company_n \<noteq> []
             then py_in title_n table_text \<and> py_in company_n table_text
             else title_n \<noteq> [] \<and> py_in title_n table_text);
          total_bullets = length (get_list (bullet_points section));
          bullet_matches = length (filter
            (\<lambda>bullet. py_in (normalize_text (get_str (bullet_text bullet))) table_text)
            (get_list (bullet_points section)))
      in if title_match then Some section
         else if total_bullets > 0 \<and> total_bullets \<le> 2 * bullet_matches then Some section
         else match_sections table_text sections)"

definition find_matching_section :: "string \<Rightarrow> section_dict list \<Rightarrow> section_dict option" where
  "find_matching_section table_text sections =
     match_sections (normalize_text table_text) sections"

text \<open>
  The three rules of the matcher for one section, on the normalized table text: title
  and company, title alone, and the bullet fallback. \<open>rule_title_alone\<close> is the second
  rule as the code has it, tried only for a section without a company;
  \<open>spec_rule_title_alone\<close> is the second rule in the words of the specification
  ("a non-empty title occurring as a substring, company not required").
\<close>

definition rule_title_company :: "string \<Rightarrow> section_dict \<Rightarrow> bool" where
  "rule_title_company table_text section =
     (normalize_text (get_str (title section)) \<noteq> []
      \<and> normalize_text (get_str (company section)) \<noteq> []
      \<and> py_in (normalize_text (get_str (title section))) table_text
      \<and> py_in (normalize_text (get_str (company section))) table_text)"

definition rule_title_alone :: "string \<Rightarrow> section_dict \<Rightarrow> bool" where
  "rule_title_alone table_text section =
     (normalize_text (get_str (company section)) = []
      \<and> normalize_text (get_str (title section)) \<noteq> []
      \<and> py_in (normalize_text (get_str (title section))) table_text)"

definition spec_rule_title_alone :: "string \<Rightarrow> section_dict \<Rightarrow> bool" where
  "spec_rule_title_alone table_text section =
     (normalize_text (get_str (title section)) \<noteq> []
      \<and> py_in (normalize_text (get_str (title section))) table_text)"

text \<open>The bullets of a section whose normalized text occurs in the table text.\<close>

definition matching_bullets :: "string \<Rightarrow> section_dict \<Rightarrow> bullet_point list" where
  "matching_bullets table_text section =
     filter (\<lambda>bullet. py_in (normalize_text (get_str (bullet_text bullet))) table_text)
       (get_list (bullet_points section))"

definition rule_bullets :: "string \<Rightarrow> section_dict \<Rightarrow> bool" where
  "rule_bullets table_text section =
     (get_list (bullet_points section) \<noteq> []
      \<and> 1 / 2 \<le> real (length (matching_bullets table_text section))
                 / real (length (get_list (bullet_points section))))"

definition section_matches :: "string \<Rightarrow> section_dict \<Rightarrow> bool" where
  "section_matches table_text section =
     (rule_title_company table_text section \<or> rule_title_alone table_text section
      \<or> rule_bullets table_text section)"

section \<open>The XML document model\<close>

text \<open>
  An \<open>xml.etree.ElementTree.Element\<close> has a tag, attributes, an optional text and an
  ordered list of children; it is a mutable object, and the code holds references to
  elements (the lists \<open>findall\<close> returns) while it mutates the tree. So every element
  carries its identity \<open>ident\<close> (what Python's \<open>is\<close> compares): the parser gives each
  element of a document its own, and every element made later gets a fresh one. The
  tags are the qualified names the code looks up; \<open>Other\<close> is any other name. Tail
  text is not modelled (WordprocessingML has no mixed content).
\<close>

datatype tag = W_tbl | W_tr | W_tc | W_p | W_pPr | W_r | W_rPr | W_t | Other string

datatype elem =
  Elem (ident: nat) (tag: tag) (attrib: "(string \<times> string) list") (etext: "string option")
    (children: "elem list")

text \<open>\<open>Element.iter()\<close>: the element and all its descendants, in document order.\<close>

fun iter :: "elem \<Rightarrow> elem list" where
  "iter (Elem i t a x cs) = Elem i t a x cs # concat (map iter cs)"

text \<open>
  \<open>element.findall(".//w:NAME", namespaces)\<close>: every descendant with that tag, in
  document order, the element itself left out; \<open>element.find(".//w:NAME", namespaces)\<close>
  is the first of them, or \<open>None\<close>.
\<close>

definition findall :: "tag \<Rightarrow> elem \<Rightarrow> elem list" where
  "findall t element = filter (\<lambda>d. tag d = t) (concat (map iter (children element)))"

definition find_elem :: "tag \<Rightarrow> elem \<Rightarrow> elem option" where
  "find_elem t element = (case findall t element of [] \<Rightarrow> None | d # _ \<Rightarrow> Some d)"

text \<open>The text of an element where Python tests or uses \<open>t.text\<close>: \<open>None\<close> is falsy like \<open>""\<close>.\<close>

definition text_or_empty :: "elem \<Rightarrow> string" where
  "text_or_empty t = (case etext t of None \<Rightarrow> [] | Some s \<Rightarrow> s)"

text \<open>
  \<open>DocXMLModifier._extract_table_text\<close> and \<open>DocXMLModifier._extract_row_text\<close> (the
  same body): the stripped texts of the text nodes that are not blank, joined by a blank.
\<close>

definition extract_row_text :: "elem \<Rightarrow> string" where
  "extract_row_text row =
     (let text_elements = findall W_t row
      in py_join '' '' (map py_strip
           (filter (\<lambda>s. s \<noteq> [] \<and> py_strip s \<noteq> []) (map text_or_empty text_elements))))"

definition extract_table_text :: "elem \<Rightarrow> string" where
  "extract_table_text table =
     (let text_elements = findall W_t table
      in py_join '' '' (map py_strip
           (filter (\<lambda>s. s \<noteq> [] \<and> py_strip s \<noteq> []) (map text_or_empty text_elements))))"

section \<open>The structure extractor\<close>

record table_info =
  rows :: "string list list"
  total_rows :: nat
  total_columns :: nat

text \<open>\<open>DocxXMLParser._extract_paragraph_text\<close>.\<close>

definition extract_paragraph_text :: "elem \<Rightarrow> string" where
  "extract_paragraph_text element =
     (let texts = findall W_t element
      in if texts \<noteq> [] then concat (filter (\<lambda>s. s \<noteq> []) (map text_or_empty texts)) else [])"

text \<open>\<open>DocxXMLParser._parse_tables\<close>: the loop over the rows of one table, then the table,
  then all tables of the document.\<close>

fun parse_rows :: "elem list \<Rightarrow> table_info \<Rightarrow> table_info" where
  "parse_rows [] info = info"
| "parse_rows (row # rest) info =
     (let cells = findall W_tc row;
          info1 = info\<lparr>total_columns := max (total_columns info) (length cells)\<rparr>;
          row_text = map extract_paragraph_text cells
      in parse_rows rest (info1\<lparr>rows := rows info1 @ [row_text]\<rparr>))"

definition parse_table :: "elem \<Rightarrow> table_info" where
  "parse_table table =
     (let table_rows = findall W_tr table
      in parse_rows table_rows
           \<lparr>rows = [], total_rows = length table_rows, total_columns = 0\<rparr>)"

definition parse_tables :: "elem \<Rightarrow> table_info list" where
  "parse_tables doc_root = map parse_table (findall W_tbl doc_root)"

section \<open>The store of elements\<close>

text \<open>
  The state of a modification run: \<open>trees\<close> holds the document (first) and after it every
  element that was taken out of its parent or is not yet put into one, since the code
  may still hold a reference to it or to one of its descendants; \<open>fresh\<close> is the next
  unused identity. An element that hangs under two parents (the code moves property
  subtrees without taking them out of the old paragraph) occurs once under each, with
  the same identity and the same content.
\<close>

record store =
  trees :: "elem list"
  fresh :: nat

datatype error = IndexError | KeyError | ValueError string | RetryError | ParseError | Dangling

text \<open>
  Reading a reference: the element with that identity as it is now. \<open>None\<close> does not
  arise for a reference the code holds; the callers turn it into \<open>Dangling\<close>.
\<close>

definition deref :: "store \<Rightarrow> nat \<Rightarrow> elem option" where
  "deref st i = List.find (\<lambda>d. ident d = i) (concat (map iter (trees st)))"

text \<open>In-place assignment of the child list of the element with identity \<open>i\<close>.\<close>

fun set_children :: "nat \<Rightarrow> elem list \<Rightarrow> elem \<Rightarrow> elem" where
  "set_children i new (Elem j t a x cs) =
     Elem j t a x (if j = i then new else map (set_children i new) cs)"

definition assign_children :: "nat \<Rightarrow> elem list \<Rightarrow> store \<Rightarrow> store" where
  "assign_children i new st = st\<lparr>trees := map (set_children i new) (trees st)\<rparr>"

text \<open>
  \<open>parent.remove(child)\<close> on the child list: the first child that is the given element
  is taken out; \<open>None\<close> is the \<open>ValueError\<close> raised when it is not a child.
\<close>

fun remove_child :: "nat \<Rightarrow> elem list \<Rightarrow> elem list option" where
  "remove_child i [] = None"
| "remove_child i (c # cs) =
     (if ident c = i then Some cs
      else (case remove_child i cs of None \<Rightarrow> None | Some cs' \<Rightarrow> Some (c # cs')))"

definition not_a_child :: error where
  "not_a_child = ValueError ''list.remove(x): x not in list''"

text \<open>
  \<open>ET.fromstring(ET.tostring(row))\<close>. The serializer writes every text and every
  attribute value of the row (markup characters escaped, and in an attribute value tab,
  line feed and carriage return as character references), and the parser reads the
  document back or refuses it with \<open>ParseError\<close>. It refuses a document in which a text
  or an attribute value holds a character that XML does not allow: on the code points
  below 256 these are the control characters below 32 other than tab, line feed and
  carriage return. The tags and the attribute names are those of a parsed document or
  of the elements the code makes, which the serializer writes and the parser reads
  back as they are; the row has no tail text (see the document model).
\<close>

definition xml_char :: "char \<Rightarrow> bool" where
  "xml_char c = (let n = (of_char c :: nat) in n = 9 \<or> n = 10 \<or> n = 13 \<or> 32 \<le> n)"

definition xml_element :: "elem \<Rightarrow> bool" where
  "xml_element e =
     (list_all (\<lambda>(name, v). list_all xml_char v) (attrib e)
      \<and> (case etext e of None \<Rightarrow> True | Some s \<Rightarrow> list_all xml_char s))"

definition serializable :: "elem \<Rightarrow> bool" where
  "serializable e = list_all xml_element (iter e)"

text \<open>
  A text as the parser reads it: each line end \<open>\r\n\<close> or \<open>\r\<close> has become \<open>\n\<close>. An
  empty text is serialized as no text and so comes back as \<open>None\<close>.
\<close>

fun parsed_text :: "string \<Rightarrow> string" where
  "parsed_text [] = []"
| "parsed_text [c] = [if c = CHR 0x0D then CHR 0x0A else c]"
| "parsed_text (c # d # cs) =
     (if c = CHR 0x0D
      then CHR 0x0A # (if d = CHR 0x0A then parsed_text cs else parsed_text (d # cs))
      else c # parsed_text (d # cs))"

text \<open>
  The tree the parser builds: a deep copy made of new elements, numbered from \<open>n\<close> in
  document order, with the tags, the attributes and the parsed texts of the old ones.
\<close>

fun parsed :: "nat \<Rightarrow> elem \<Rightarrow> elem \<times> nat"
  and parsed_list :: "nat \<Rightarrow> elem list \<Rightarrow> elem list \<times> nat" where
  "parsed n (Elem i t a x cs) =
     (case parsed_list (Suc n) cs of
        (cs', n') \<Rightarrow>
          (Elem n t a
             (case x of None \<Rightarrow> None
              | Some s \<Rightarrow> if s = [] then None else Some (parsed_text s)) cs', n'))"
| "parsed_list n [] = ([], n)"
| "parsed_list n (c # cs) =
     (case parsed n c of (c', n1) \<Rightarrow>
        (case parsed_list n1 cs of (cs', n2) \<Rightarrow> (c' # cs', n2)))"

definition clone :: "nat \<Rightarrow> elem \<Rightarrow> error + elem \<times> nat" where
  "clone n row = (if serializable row then Inr (parsed n row) else Inl ParseError)"

section \<open>The table rewriter\<close>

text \<open>
  \<open>DocXMLModifier._update_row_content(row, new_text)\<close>, with \<open>row\<close> a reference. The
  three new elements are made in the order paragraph, run, text node.
\<close>

definition update_row_content :: "nat \<Rightarrow> string \<Rightarrow> store \<Rightarrow> error + store" where
  "update_row_content row new_text st =
     (case deref st row of
        None \<Rightarrow> Inl Dangling
      | Some r \<Rightarrow>
     (case find_elem W_tc r of
        None \<Rightarrow> Inr st
      | Some cell \<Rightarrow>
     (case find_elem W_p cell of
        None \<Rightarrow> Inr st
      | Some paragraph \<Rightarrow>
          (let p_pr = find_elem W_pPr paragraph;
               existing_run = find_elem W_r paragraph;
               r_pr = (case existing_run of None \<Rightarrow> None | Some run \<Rightarrow> find_elem W_rPr run);
               n = fresh st;
               text_node = Elem (n + 2) W_t [] (Some new_text) [];
               run = Elem (n + 1) W_r [] None
                       ((case r_pr of None \<Rightarrow> [] | Some e \<Rightarrow> [e]) @ [text_node]);
               new_paragraph = Elem n W_p [] None
                       ((case p_pr of None \<Rightarrow> [] | Some e \<Rightarrow> [e]) @ [run])
           in (case remove_child (ident paragraph) (children cell) of
                 None \<Rightarrow> Inl not_a_child
               | Some remaining \<Rightarrow>
                   Inr (assign_children (ident cell) (remaining @ [new_paragraph])
                          (st\<lparr>trees := trees st @ [paragraph], fresh := n + 3\<rparr>)))))))"

text \<open>
  \<open>DocXMLModifier._update_table_content\<close>, lines 187-194: the index of the first bullet
  row, from the rows found; \<open>rows[0]\<close> raises \<open>IndexError\<close> on a table without rows.
\<close>

definition start_row_index :: "elem list \<Rightarrow> section_dict \<Rightarrow> error + nat" where
  "start_row_index table_rows section =
     (case table_rows of
        [] \<Rightarrow> Inl IndexError
      | first_row # _ \<Rightarrow>
          (let first_row_text = extract_row_text first_row
           in Inr (if py_in (get_str (title section)) first_row_text
                      \<or> py_in (get_str (company section)) first_row_text
                   then 1 else 0)))"

text \<open>\<open>table.remove(row)\<close> and \<open>table.append(row)\<close> on references.\<close>

definition table_remove :: "nat \<Rightarrow> nat \<Rightarrow> store \<Rightarrow> error + store" where
  "table_remove table row st =
     (case deref st table of
        None \<Rightarrow> Inl Dangling
      | Some t \<Rightarrow>
     (case deref st row of
        None \<Rightarrow> Inl Dangling
      | Some r \<Rightarrow>
     (case remove_child row (children t) of
        None \<Rightarrow> Inl not_a_child
      | Some remaining \<Rightarrow>
          Inr (assign_children table remaining (st\<lparr>trees := trees st @ [r]\<rparr>)))))"

definition table_append :: "nat \<Rightarrow> nat \<Rightarrow> store \<Rightarrow> error + store" where
  "table_append table row st =
     (case deref st table of
        None \<Rightarrow> Inl Dangling
      | Some t \<Rightarrow>
     (case deref st row of
        None \<Rightarrow> Inl Dangling
      | Some r \<Rightarrow> Inr (assign_children table (children t @ [r]) st)))"

text \<open>
  Lines 199-206, the loop \<open>for i, row in enumerate(bullet_rows)\<close>; \<open>bullet_points[i]["text"]\<close>
  raises \<open>KeyError\<close> on a bullet without the key.
\<close>

fun update_or_remove_rows ::
  "nat \<Rightarrow> bullet_point list \<Rightarrow> nat \<Rightarrow> nat list \<Rightarrow> store \<Rightarrow> error + store" where
  "update_or_remove_rows table bullets i [] st = Inr st"
| "update_or_remove_rows table bullets i (row # rest) st =
     (if i < length bullets then
        (case bullet_text (bullets ! i) of
           None \<Rightarrow> Inl KeyError
         | Some new_text \<Rightarrow>
             (case update_row_content row new_text st of
                Inl e \<Rightarrow> Inl e
              | Inr st' \<Rightarrow> update_or_remove_rows table bullets (i + 1) rest st'))
      else
        (case table_remove table row st of
           Inl e \<Rightarrow> Inl e
         | Inr st' \<Rightarrow> update_or_remove_rows table bullets (i + 1) rest st'))"

text \<open>
  Lines 208-215, the loop \<open>for i in range(len(bullet_rows), len(bullet_points))\<close> over the
  indices \<open>is\<close>: \<open>bullet_rows[-1]\<close> raises \<open>IndexError\<close> when there is no bullet row. The
  clone is in no tree until it is appended.
\<close>

fun add_rows ::
  "nat \<Rightarrow> bullet_point list \<Rightarrow> nat list \<Rightarrow> nat list \<Rightarrow> store \<Rightarrow> error + store" where
  "add_rows table bullets bullet_rows [] st = Inr st"
| "add_rows table bullets bullet_rows (i # rest) st =
     (if bullet_rows = [] then Inl IndexError
      else
        (case deref st (last bullet_rows) of
           None \<Rightarrow> Inl Dangling
         | Some last_row \<Rightarrow>
             (case clone (fresh st) last_row of
                Inl e \<Rightarrow> Inl e
              | Inr (template_row, n) \<Rightarrow>
                (case bullet_text (bullets ! i) of
                   None \<Rightarrow> Inl KeyError
                 | Some new_text \<Rightarrow>
                     (case update_row_content (ident template_row) new_text
                             (st\<lparr>trees := trees st @ [template_row], fresh := n\<rparr>) of
                        Inl e \<Rightarrow> Inl e
                      | Inr st1 \<Rightarrow>
                          (case table_append table (ident template_row) st1 of
                             Inl e \<Rightarrow> Inl e
                           | Inr st2 \<Rightarrow> add_rows table bullets bullet_rows rest st2))))))"

text \<open>\<open>DocXMLModifier._update_table_content(table, section)\<close>, with \<open>table\<close> a reference.\<close>

definition update_table_content :: "nat \<Rightarrow> section_dict \<Rightarrow> store \<Rightarrow> error + store" where
  "update_table_content table section st =
     (case deref st table of
        None \<Rightarrow> Inl Dangling
      | Some t \<Rightarrow>
          (let table_rows = findall W_tr t;
               bullets = get_list (bullet_points section)
           in (case start_row_index table_rows section of
                 Inl e \<Rightarrow> Inl e
               | Inr start \<Rightarrow>
                   (let bullet_rows = map ident (drop start table_rows)
                    in (case update_or_remove_rows table bullets 0 bullet_rows st of
                          Inl e \<Rightarrow> Inl e
                        | Inr st' \<Rightarrow>
                            add_rows table bullets bullet_rows
                              [length bullet_rows ..< length bullets] st')))))"

section \<open>The modification run\<close>

text \<open>\<open>DocXMLModifier._modify_sections\<close>: the loop over the tables found, as references.\<close>

fun modify_tables :: "section_dict list \<Rightarrow> nat list \<Rightarrow> store \<Rightarrow> error + store" where
  "modify_tables all_sections [] st = Inr st"
| "modify_tables all_sections (table # rest) st =
     (case deref st table of
        None \<Rightarrow> Inl Dangling
      | Some t \<Rightarrow>
          (case find_matching_section (extract_table_text t) all_sections of
             None \<Rightarrow> modify_tables all_sections rest st
           | Some matched_section \<Rightarrow>
               (case update_table_content table matched_section st of
                  Inl e \<Rightarrow> Inl e
                | Inr st' \<Rightarrow> modify_tables all_sections rest st')))"

definition modify_sections :: "elem \<Rightarrow> section_dict list \<Rightarrow> store \<Rightarrow> error + store" where
  "modify_sections doc_root all_sections st =
     modify_tables all_sections (map ident (findall W_tbl doc_root)) st"

text \<open>
  \<open>DocXMLModifier.modify_docx\<close> between parsing \<open>word/document.xml\<close> and writing it
  back: \<open>doc_root\<close> is the parsed document, the result is the tree that is written, or the
  exception that ends the run. Unpacking and repacking the archive are not modelled.
\<close>

definition first_fresh :: "elem \<Rightarrow> nat" where
  "first_fresh doc_root = Suc (fold max (map ident (iter doc_root)) 0)"

definition modify_docx :: "elem \<Rightarrow> schema \<Rightarrow> error + elem" where
  "modify_docx doc_root tailored_schema =
     (case modify_sections doc_root
             (get_list (experiences tailored_schema) @ get_list (projects tailored_schema))
             \<lparr>trees = [doc_root], fresh = first_fresh doc_root\<rparr> of
        Inl e \<Rightarrow> Inl e
      | Inr st \<Rightarrow> Inr (hd (trees st)))"







section \<open>The vocabulary of the table rewrite\<close>

text \<open>The elements of a list of trees, in document order.\<close>

abbreviation iters :: "elem list \<Rightarrow> elem list" where
  "iters cs \<equiv> concat (map iter cs)"

abbreviation is_row :: "elem \<Rightarrow> bool" where
  "is_row c \<equiv> tag c = W_tr"

text \<open>Every identity in the store is below \<open>fresh\<close>.\<close>

definition fresh_ok :: "store \<Rightarrow> bool" where
  "fresh_ok st = list_all (\<lambda>e. ident e < fresh st) (iters (trees st))"

text \<open>The paragraph that \<open>update_row_content\<close> builds from the old one.\<close>

definition new_paragraph :: "nat \<Rightarrow> string \<Rightarrow> elem \<Rightarrow> elem" where
  "new_paragraph n new_text paragraph =
     Elem n W_p [] None
       ((case find_elem W_pPr paragraph of None \<Rightarrow> [] | Some p_pr \<Rightarrow> [p_pr]) @
        [Elem (n + 1) W_r [] None
           ((case find_elem W_r paragraph of
               None \<Rightarrow> []
             | Some run \<Rightarrow> (case find_elem W_rPr run of None \<Rightarrow> [] | Some r_pr \<Rightarrow> [r_pr])) @
            [Elem (n + 2) W_t [] (Some new_text) []])])"

text \<open>
  The paragraphs below the first cell of a row are children of the cell: no child of
  the cell has a paragraph below it.
\<close>

definition paragraphs_direct :: "elem \<Rightarrow> bool" where
  "paragraphs_direct r =
     (case find_elem W_tc r of
        None \<Rightarrow> True
      | Some cell \<Rightarrow> list_all (\<lambda>c. findall W_p c = []) (children cell))"

text \<open>
  What the row update is to make of a row, the new elements numbered from \<open>n\<close>: in the
  first cell of the row, the first paragraph is taken out of the children of the cell
  and the new paragraph, which holds the new text, is put after the children that
  stay. A row without a cell, or whose first cell has no paragraph (or has its first
  paragraph deeper than as a child), stays as it is. \<open>updated_fresh\<close> is the next unused
  identity afterwards.
\<close>

definition updated_row :: "nat \<Rightarrow> string \<Rightarrow> elem \<Rightarrow> elem" where
  "updated_row n new_text r =
     (case find_elem W_tc r of
        None \<Rightarrow> r
      | Some cell \<Rightarrow>
     (case find_elem W_p cell of
        None \<Rightarrow> r
      | Some paragraph \<Rightarrow>
     (case remove_child (ident paragraph) (children cell) of
        None \<Rightarrow> r
      | Some others \<Rightarrow>
          set_children (ident cell) (others @ [new_paragraph n new_text paragraph]) r)))"

definition updated_fresh :: "nat \<Rightarrow> string \<Rightarrow> elem \<Rightarrow> nat" where
  "updated_fresh n new_text r =
     (case find_elem W_tc r of
        None \<Rightarrow> n
      | Some cell \<Rightarrow>
     (case find_elem W_p cell of
        None \<Rightarrow> n
      | Some paragraph \<Rightarrow>
     (case remove_child (ident paragraph) (children cell) of
        None \<Rightarrow> n
      | Some others \<Rightarrow> n + 3)))"

text \<open>Two trees of the same shape: the same tags in the same structure.\<close>

fun same_shape :: "elem \<Rightarrow> elem \<Rightarrow> bool" where
  "same_shape (Elem i t a x cs) (Elem i' t' a' x' cs') =
     (t = t' \<and> list_all2 same_shape cs cs')"

text \<open>
  The children of a table whose rows are its children, after the loop over the bullet
  rows has passed the children \<open>cs\<close>, with \<open>i\<close> the index of the next bullet: a row is
  updated while bullets are left and dropped afterwards, any other child stays.
\<close>

fun rewritten :: "nat \<Rightarrow> nat \<Rightarrow> bullet_point list \<Rightarrow> elem list \<Rightarrow> elem list \<times> nat" where
  "rewritten n i bullets [] = ([], n)"
| "rewritten n i bullets (c # cs) =
     (if tag c = W_tr then
        (if i < length bullets then
           (case rewritten (updated_fresh n (get_str (bullet_text (bullets ! i))) c)
                   (i + 1) bullets cs of
              (cs', n') \<Rightarrow> (updated_row n (get_str (bullet_text (bullets ! i))) c # cs', n'))
         else rewritten n (i + 1) bullets cs)
      else (case rewritten n i bullets cs of (cs', n') \<Rightarrow> (c # cs', n')))"

section \<open>The schema as the interface requires it\<close>


section \<open>Example inputs\<close>

definition bullet :: "string \<Rightarrow> bullet_point" where
  "bullet s = \<lparr>bullet_text = Some s, bullet_keywords = Some []\<rparr>"

definition engineer_at_acme :: section_dict where
  "engineer_at_acme =
     \<lparr>title = Some ''Engineer'', company = Some ''Acme'', bullet_points = Some []\<rparr>"

definition four_bullets :: section_dict where
  "four_bullets =
     \<lparr>title = None, company = None,
      bullet_points = Some [bullet ''Led X'', bullet ''Built Y'', bullet ''Shipped Z'',
                            bullet ''Wrote W'']\<rparr>"

text \<open>A row of one cell with one paragraph of one run, and one with properties.\<close>

definition text_row :: "nat \<Rightarrow> string \<Rightarrow> elem" where
  "text_row n s =
     Elem n W_tr [] None
       [Elem (n + 1) W_tc [] None
          [Elem (n + 2) W_p [] None
             [Elem (n + 3) W_r [] None [Elem (n + 4) W_t [] (Some s) []]]]]"

definition bold_bullet_row :: "nat \<Rightarrow> string \<Rightarrow> elem" where
  "bold_bullet_row n s =
     Elem n W_tr [] None
       [Elem (n + 1) W_tc [] None
          [Elem (n + 2) W_p [] None
             [Elem (n + 3) W_pPr [] None [Elem (n + 4) (Other ''w:numPr'') [] None []],
              Elem (n + 5) W_r [] None
                [Elem (n + 6) W_rPr [] None [Elem (n + 7) (Other ''w:b'') [] None []],
                 Elem (n + 8) W_t [] (Some s) []]]]]"

definition cell_less_row :: elem where
  "cell_less_row = Elem 1 W_tr [] None [Elem 2 (Other ''w:trPr'') [] None []]"

definition paragraph_less_row :: elem where
  "paragraph_less_row =
     Elem 1 W_tr [] None [Elem 2 W_tc [] None [Elem 3 (Other ''w:tcPr'') [] None []]]"

definition two_paragraph_row :: elem where
  "two_paragraph_row =
     Elem 1 W_tr [] None
       [Elem 2 W_tc [] None
          [Elem 3 W_p [] None
             [Elem 4 W_r [] None [Elem 5 W_t [] (Some ''first'') []],
              Elem 6 W_r [] None [Elem 7 W_t [] (Some ''more'') []]],
           Elem 8 W_p [] None
             [Elem 9 W_r [] None [Elem 10 W_t [] (Some ''second'') []]]]]"

definition two_cell_table :: elem where
  "two_cell_table =
     Elem 1 W_tbl [] None
       [Elem 2 W_tr [] None
          [Elem 3 W_tc [] None
             [Elem 4 W_p [] None
                [Elem 5 W_r [] None [Elem 6 W_t [] (Some ''Tech '') []],
                 Elem 7 W_r [] None [Elem 8 W_t [] (Some ''Corp'') []]]],
           Elem 9 W_tc [] None [Elem 10 W_p [] None []]],
        Elem 11 W_tr [] None
          [Elem 12 W_tc [] None
             [Elem 13 W_p [] None [Elem 14 W_r [] None [Elem 15 W_t [] None []]]]]]"



text \<open>
  A project as in the example schema of \<open>openai_handler.py\<close>, which has no company, and
  a table of its two bullets without a header row.
\<close>

definition ml_pipeline :: section_dict where
  "ml_pipeline =
     \<lparr>title = Some ''ML Pipeline'', company = None,
      bullet_points = Some [bullet ''Built data pipeline'', bullet ''Deployed on AWS'']\<rparr>"

definition pipeline_table :: elem where
  "pipeline_table =
     Elem 1 W_tbl [] None
       [text_row 10 ''Built data pipeline'', text_row 20 ''Deployed on AWS'']"







text \<open>Tables and sections for the table rewrite.\<close>

definition led_section :: "string list \<Rightarrow> section_dict" where
  "led_section texts =
     \<lparr>title = Some ''Engineer'', company = Some ''Acme'',
      bullet_points = Some (map bullet texts)\<rparr>"

definition header_only_table :: elem where
  "header_only_table = Elem 1 W_tbl [] None [text_row 10 ''Engineer at Acme'']"

definition cell_less_table :: elem where
  "cell_less_table =
     Elem 1 W_tbl [] None
       [text_row 10 ''Engineer at Acme'',
        Elem 20 W_tr [] None [Elem 21 (Other ''w:trPr'') [] None []]]"

definition five_row_table :: elem where
  "five_row_table =
     Elem 1 W_tbl [] None
       [Elem 2 (Other ''w:tblPr'') [] None [],
        text_row 10 ''Did a'', text_row 20 ''Did b'', text_row 30 ''Did c'',
        text_row 40 ''Did d'', text_row 50 ''Did e'']"

definition headed_table :: elem where
  "headed_table =
     Elem 1 W_tbl [] None
       [Elem 2 (Other ''w:tblPr'') [] None [],
        text_row 10 ''Engineer at Acme'', text_row 20 ''Did a'', text_row 30 ''Did b'']"

definition rowless_table :: elem where
  "rowless_table = Elem 1 W_tbl [] None [Elem 2 (Other ''w:tblPr'') [] None []]"

text \<open>A bullet text with a form feed, which XML does not allow.\<close>

definition form_feed_text :: string where
  "form_feed_text = ''Led'' @ [CHR 0x0C] @ ''X''"


section \<open>Properties of the strings\<close>

lemma lower_char_idem: "lower_char (lower_char c) = lower_char c"
  by (cases c) (simp add: py_isupper_def)

lemma isspace_blank: "py_isspace (CHR '' '')"
  by (simp add: py_isspace_def)

lemma lower_char_blank: "lower_char (CHR '' '') = CHR '' ''"
  by (simp add: py_isupper_def)

lemma re_sub_ws_hd:
  "re_sub_ws s = d # ds \<Longrightarrow> s \<noteq> [] \<and> (py_isspace d \<longleftrightarrow> py_isspace (hd s))"
  by (cases s) (auto simp: isspace_blank split: if_splits)

lemma collapsed_re_sub_ws: "collapsed (re_sub_ws s)"
proof (induction s rule: re_sub_ws.induct)
  case 1
  show ?case by simp
next
  case (2 c cs)
  show ?case
  proof (cases "py_isspace c")
    case True
    have "\<not> py_isspace d" if "re_sub_ws (dropWhile py_isspace cs) = d # ds" for d ds
    proof -
      from re_sub_ws_hd[OF that] obtain y ys where "dropWhile py_isspace cs = y # ys"
        and "py_isspace d \<longleftrightarrow> py_isspace y"
        by (cases "dropWhile py_isspace cs") auto
      then show ?thesis by (metis dropWhile_eq_Cons_conv)
    qed
    with True 2 show ?thesis by (auto split: list.splits)
  next
    case False
    with 2 show ?thesis by simp
  qed
qed

lemma re_sub_ws_collapsed: "collapsed s \<Longrightarrow> re_sub_ws s = s"
  by (induction s rule: re_sub_ws.induct) (auto split: list.splits if_splits)

lemma set_re_sub_ws: "set (re_sub_ws s) \<subseteq> insert (CHR '' '') (set s)"
proof (induction s rule: re_sub_ws.induct)
  case 1
  show ?case by simp
next
  case (2 c cs)
  have "set (dropWhile py_isspace cs) \<subseteq> set cs"
    by (simp add: set_dropWhileD subsetI)
  with 2 show ?case by auto
qed

lemma set_py_strip: "set (py_strip s) \<subseteq> set s"
  unfolding py_strip_def by (auto dest!: set_dropWhileD)

lemma py_lower_normalize: "py_lower (normalize_text x) = normalize_text x"
proof -
  have "set (normalize_text x) \<subseteq> insert (CHR '' '') (lower_char ` set x)"
    using set_re_sub_ws[of "py_strip (py_lower x)"] set_py_strip[of "py_lower x"]
    by (auto simp: normalize_text_def py_lower_def)
  then have "\<forall>c \<in> set (normalize_text x). lower_char c = c"
    using lower_char_idem lower_char_blank by auto
  then show ?thesis by (simp add: py_lower_def map_idI)
qed

lemma py_strip_noop:
  assumes "s = [] \<or> (\<not> py_isspace (hd s) \<and> \<not> py_isspace (last s))"
  shows "py_strip s = s"
proof (cases "s = []")
  case True
  then show ?thesis by (simp add: py_strip_def)
next
  case False
  with assms have h: "\<not> py_isspace (hd s)" and l: "\<not> py_isspace (last s)" by auto
  from False h have 1: "dropWhile py_isspace s = s"
    by (simp add: dropWhile_eq_self_iff)
  from False l have 2: "dropWhile py_isspace (rev s) = rev s"
    by (simp add: dropWhile_eq_self_iff hd_rev)
  show ?thesis by (simp add: py_strip_def 1 2)
qed

lemma py_strip_ends:
  "py_strip s = [] \<or> (\<not> py_isspace (hd (py_strip s)) \<and> \<not> py_isspace (last (py_strip s)))"
proof (cases "py_strip s = []")
  case True
  then show ?thesis by simp
next
  case False
  let ?t = "dropWhile py_isspace s"
  let ?u = "dropWhile py_isspace (rev ?t)"
  have s: "py_strip s = rev ?u" by (simp add: py_strip_def)
  with False have u: "?u \<noteq> []" by simp
  have t: "?t \<noteq> []"
  proof
    assume "?t = []"
    then have "?u = []" by (simp only: rev.simps dropWhile.simps)
    with u show False by (simp only:)
  qed
  from u have hu: "\<not> py_isspace (hd ?u)" by (rule hd_dropWhile)
  from t have ht: "\<not> py_isspace (hd ?t)" by (rule hd_dropWhile)
  obtain ps where "rev ?t = ps @ ?u"
    by (metis takeWhile_dropWhile_id)
  with u have "last ?u = last (rev ?t)" by (metis last_appendR)
  with t have "last ?u = hd ?t" by (simp add: last_rev)
  with hu ht u show ?thesis by (simp add: s hd_rev last_rev)
qed

lemma re_sub_ws_last:
  "s \<noteq> [] \<Longrightarrow> \<not> py_isspace (last s) \<Longrightarrow> re_sub_ws s \<noteq> [] \<and> last (re_sub_ws s) = last s"
proof (induction s rule: re_sub_ws.induct)
  case 1
  then show ?case by simp
next
  case (2 c cs)
  show ?case
  proof (cases "py_isspace c")
    case True
    with 2(4) have cs: "cs \<noteq> []" by (cases cs) auto
    let ?d = "dropWhile py_isspace cs"
    from cs 2(4) have "\<not> py_isspace (last cs)" by simp
    with cs have d: "?d \<noteq> []"
      by (metis dropWhile_eq_Nil_conv last_in_set)
    obtain ps where "cs = ps @ ?d" by (metis takeWhile_dropWhile_id)
    with d have l: "last ?d = last cs" by (metis last_appendR)
    with 2(1)[OF True d] cs 2(4) True show ?thesis by simp
  next
    case False
    show ?thesis
    proof (cases "cs = []")
      case True
      with False show ?thesis by simp
    next
      case nonempty: False
      with 2(2)[OF False nonempty] 2(4) False show ?thesis by simp
    qed
  qed
qed

lemma normalize_text_ends:
  "normalize_text x = [] \<or>
   (\<not> py_isspace (hd (normalize_text x)) \<and> \<not> py_isspace (last (normalize_text x)))"
proof -
  let ?y = "py_strip (py_lower x)"
  show ?thesis
  proof (cases "?y = []")
    case True
    then show ?thesis by (simp add: normalize_text_def)
  next
    case False
    with py_strip_ends[of "py_lower x"]
    have h: "\<not> py_isspace (hd ?y)" and l: "\<not> py_isspace (last ?y)" by auto
    from re_sub_ws_last[OF False l]
    have n: "re_sub_ws ?y \<noteq> []" and "last (re_sub_ws ?y) = last ?y"
      by auto
    moreover from n obtain d ds where "re_sub_ws ?y = d # ds"
      by (cases "re_sub_ws ?y") auto
    with re_sub_ws_hd[of ?y d ds] h have "\<not> py_isspace (hd (re_sub_ws ?y))" by simp
    ultimately show ?thesis using l by (simp add: normalize_text_def)
  qed
qed

text \<open>
  C8. Normalization (lower case, strip, every run of whitespace collapsed to one blank)
  is idempotent: normalizing a normalized string changes nothing.
\<close>

theorem normalize_text_idempotent: "normalize_text (normalize_text x) = normalize_text x"
proof -
  have "collapsed (normalize_text x)"
    by (simp add: normalize_text_def collapsed_re_sub_ws)
  then have "re_sub_ws (normalize_text x) = normalize_text x"
    by (rule re_sub_ws_collapsed)
  moreover have "py_strip (normalize_text x) = normalize_text x"
    using normalize_text_ends by (rule py_strip_noop)
  ultimately have "re_sub_ws (py_strip (py_lower (normalize_text x))) = normalize_text x"
    by (simp add: py_lower_normalize)
  then show ?thesis by (subst normalize_text_def)
qed

lemma py_in_empty: "py_in [] s"
  by (induction s) simp_all

lemma py_in_sublist: "py_in sub s \<longleftrightarrow> sublist sub s"
  by (induction s) (simp_all add: sublist_Cons_right)

section \<open>Properties of the matcher\<close>

lemmas eval_text =
  normalize_text_def py_strip_def py_lower_def py_isspace_def py_isupper_def
  get_str_def get_list_def

lemma match_sections_find:
  "match_sections table_text secs = List.find (section_matches table_text) secs"
proof (induction secs)
  case Nil
  show ?case by simp
next
  case (Cons sec secs)
  have b: "rule_bullets table_text sec \<longleftrightarrow>
           (0 < length (get_list (bullet_points sec))
            \<and> length (get_list (bullet_points sec))
               \<le> 2 * length (matching_bullets table_text sec))"
    by (auto simp: rule_bullets_def field_simps)
  show ?case
    unfolding match_sections.simps Let_def find.simps Cons.IH
    by (auto simp: section_matches_def b rule_title_company_def rule_title_alone_def
        matching_bullets_def)
qed

text \<open>
  C2 (as amended). The matcher returns the first section, the experiences before the
  projects and each list in its order, that satisfies one of the three rules, where the
  title alone (rule 2) counts only for a section whose normalized company is empty: a
  section with a non-empty title and a non-empty company that does not occur in the
  table text matches exactly when the bullet fallback (rule 3) holds, wherever its title
  occurs.
\<close>

theorem find_matching_section_first:
  "find_matching_section table_text (get_list (experiences s) @ get_list (projects s)) =
     (case List.find (section_matches (normalize_text table_text))
             (get_list (experiences s)) of
        Some sec \<Rightarrow> Some sec
      | None \<Rightarrow>
          List.find (section_matches (normalize_text table_text)) (get_list (projects s)))
   \<and> (normalize_text (get_str (title sec)) \<noteq> []
        \<and> normalize_text (get_str (company sec)) \<noteq> []
        \<and> \<not> py_in (normalize_text (get_str (company sec))) (normalize_text table_text)
      \<longrightarrow> (section_matches (normalize_text table_text) sec
           \<longleftrightarrow> rule_bullets (normalize_text table_text) sec))"
proof -
  have find_append:
    "List.find P (xs @ ys) = (case List.find P xs of Some x \<Rightarrow> Some x | None \<Rightarrow> List.find P ys)"
    for P and xs ys :: "section_dict list"
    by (induction xs) auto
  show ?thesis
    by (simp add: find_matching_section_def match_sections_find find_append
        section_matches_def rule_title_company_def rule_title_alone_def)
qed

theorem find_matching_section_first_witness:
  "find_matching_section ''Engineer at Acme'' [four_bullets, engineer_at_acme]
     = Some engineer_at_acme
   \<and> \<not> section_matches (normalize_text ''Engineer at Foo'') engineer_at_acme"
  using
    find_matching_section_first [of "''Engineer at Acme''"
      "\<lparr>experiences = Some [four_bullets], projects = Some [engineer_at_acme]\<rparr>"
      engineer_at_acme]
    find_matching_section_first [of "''Engineer at Foo''"
      "\<lparr>experiences = None, projects = None\<rparr>" engineer_at_acme]
  by (simp add: eval_text section_matches_def rule_title_company_def rule_title_alone_def
      rule_bullets_def matching_bullets_def engineer_at_acme_def four_bullets_def bullet_def)

text \<open>
  C2 as stated fails: the title of this section is not empty and occurs in the table
  text, rule 1 fails because its company does not occur, and the section is not matched.
\<close>

theorem title_without_company_counterexample:
  "spec_rule_title_alone (normalize_text ''Engineer at Foo'') engineer_at_acme
   \<and> \<not> rule_title_company (normalize_text ''Engineer at Foo'') engineer_at_acme
   \<and> find_matching_section ''Engineer at Foo'' [engineer_at_acme] = None"
  by (simp add: eval_text find_matching_section_def spec_rule_title_alone_def
      rule_title_company_def engineer_at_acme_def)

text \<open>
  C6. A section that matches neither by title and company nor by title alone, and that
  has at least one bullet, is returned exactly when at least half of its bullets occur,
  normalized, in the normalized table text; otherwise the search goes on with the
  sections after it.
\<close>

theorem bullet_fallback_threshold:
  assumes "\<not> rule_title_company (normalize_text table_text) sec"
    and "\<not> rule_title_alone (normalize_text table_text) sec"
    and "get_list (bullet_points sec) \<noteq> []"
  shows "find_matching_section table_text (sec # secs) =
     (if 1 / 2 \<le> real (length (matching_bullets (normalize_text table_text) sec))
                  / real (length (get_list (bullet_points sec)))
      then Some sec else find_matching_section table_text secs)"
  using assms
  by (simp add: find_matching_section_def match_sections_find section_matches_def
      rule_bullets_def)

text \<open>The witness: three of four bullets occur, and one of four.\<close>

theorem bullet_fallback_threshold_witness:
  "find_matching_section ''Led x. Built   Y; shipped z'' [four_bullets] = Some four_bullets
   \<and> find_matching_section ''We LED X last year'' [four_bullets] = None"
proof -
  have a: "\<not> rule_title_company t four_bullets" "\<not> rule_title_alone t four_bullets"
    "get_list (bullet_points four_bullets) \<noteq> []" for t
    by (simp_all add: eval_text rule_title_company_def rule_title_alone_def four_bullets_def)
  have m3: "length (matching_bullets (normalize_text ''Led x. Built   Y; shipped z'')
              four_bullets) = 3"
    by (simp add: eval_text matching_bullets_def four_bullets_def bullet_def)
  have m1: "length (matching_bullets (normalize_text ''We LED X last year'') four_bullets) = 1"
    by (simp add: eval_text matching_bullets_def four_bullets_def bullet_def)
  have n: "length (get_list (bullet_points four_bullets)) = 4"
    by (simp add: get_list_def four_bullets_def)
  have e: "find_matching_section t [] = None" for t
    by (simp add: find_matching_section_def)
  show ?thesis
    using bullet_fallback_threshold [OF a, of "''Led x. Built   Y; shipped z''" "[]"]
      bullet_fallback_threshold [OF a, of "''We LED X last year''" "[]"]
    by (simp add: m3 m1 n e)
qed

section \<open>Properties of the structure extractor\<close>

lemmas eval_xml = findall_def find_elem_def text_or_empty_def

lemma concat_filter_nonempty: "concat (filter (\<lambda>s. s \<noteq> []) xs) = concat xs"
  by (induction xs) auto

lemma extract_paragraph_text_concat:
  "extract_paragraph_text element = concat (map text_or_empty (findall W_t element))"
  by (simp add: extract_paragraph_text_def Let_def concat_filter_nonempty)

lemma parse_rows_rows:
  "rows (parse_rows rs info) =
     rows info @ map (\<lambda>row. map extract_paragraph_text (findall W_tc row)) rs"
  by (induction rs arbitrary: info) (simp_all add: Let_def)

lemma parse_rows_total_rows: "total_rows (parse_rows rs info) = total_rows info"
  by (induction rs arbitrary: info) (simp_all add: Let_def)

lemma parse_rows_total_columns:
  "total_columns (parse_rows rs info) =
     fold max (map (\<lambda>row. length (findall W_tc row)) rs) (total_columns info)"
  by (induction rs arbitrary: info) (simp_all add: Let_def max.commute)

text \<open>
  C9. The snapshot of a table records as \<open>total_columns\<close> the greatest number of cells of
  a row (0 without rows) and as \<open>rows\<close>, per row, one text per cell: the texts of all the
  text nodes below the cell, in document order, concatenated without a separator. A cell
  without a text node gives the empty string, and is a cell of its row like any other.
\<close>

theorem parse_table_snapshot:
  "total_columns (parse_table table) =
     Max (insert 0 ((\<lambda>row. length (findall W_tc row)) ` set (findall W_tr table)))
   \<and> total_rows (parse_table table) = length (findall W_tr table)
   \<and> rows (parse_table table) =
       map (\<lambda>row. map (\<lambda>cell. concat (map text_or_empty (findall W_t cell)))
                    (findall W_tc row))
         (findall W_tr table)
   \<and> (\<forall>row \<in> set (findall W_tr table). \<forall>cell \<in> set (findall W_tc row).
         findall W_t cell = [] \<longrightarrow> extract_paragraph_text cell = [])"
proof -
  let ?ns = "map (\<lambda>row. length (findall W_tc row)) (findall W_tr table)"
  have "Max (insert 0 (set ?ns)) = fold max ?ns 0"
    using Max.set_eq_fold [of 0 ?ns] by simp
  then show ?thesis
    by (simp add: parse_table_def Let_def parse_rows_rows parse_rows_total_rows
        parse_rows_total_columns extract_paragraph_text_concat)
qed

theorem parse_table_snapshot_witness:
  "parse_table two_cell_table =
     \<lparr>rows = [[''Tech Corp'', []], [[]]], total_rows = 2, total_columns = 2\<rparr>"
proof -
  have rs: "findall W_tr two_cell_table = children two_cell_table"
    by (simp add: two_cell_table_def eval_xml)
  have "total_columns (parse_table two_cell_table) = 2"
    "total_rows (parse_table two_cell_table) = 2"
    "rows (parse_table two_cell_table) = [[''Tech Corp'', []], [[]]]"
    using parse_table_snapshot [of two_cell_table]
    by (simp_all add: rs) (simp_all add: two_cell_table_def eval_xml)
  then show ?thesis by simp
qed

section \<open>Properties of the row update\<close>

lemmas eval_store = deref_def assign_children_def not_a_child_def
  clone_def serializable_def xml_element_def xml_char_def

lemmas eval_rewrite =
  modify_docx_def modify_sections_def first_fresh_def eval_xml eval_store
  extract_table_text_def extract_row_text_def find_matching_section_def
  normalize_text_def py_strip_def py_lower_def py_isspace_def py_isupper_def
  get_str_def get_list_def update_table_content_def start_row_index_def
  update_row_content_def table_remove_def table_append_def

text \<open>
  C7. A row without a cell, or whose cell has no paragraph, is left as it is and nothing
  is raised: the store is unchanged, and the loop over the bullet rows goes on with the
  next row.
\<close>

theorem malformed_row_untouched:
  assumes "deref st row = Some r"
    and "find_elem W_tc r = None
         \<or> (\<exists>cell. find_elem W_tc r = Some cell \<and> find_elem W_p cell = None)"
  shows "update_row_content row new_text st = Inr st
    \<and> (i < length bullets \<and> bullet_text (bullets ! i) = Some new_text \<longrightarrow>
         update_or_remove_rows table bullets i (row # others) st =
         update_or_remove_rows table bullets (i + 1) others st)"
proof -
  have a: "update_row_content row new_text st = Inr st"
    using assms by (auto simp: update_row_content_def)
  then show ?thesis by simp
qed

theorem malformed_row_untouched_witness:
  "update_row_content 1 ''Led X'' \<lparr>trees = [cell_less_row], fresh = 3\<rparr>
     = Inr \<lparr>trees = [cell_less_row], fresh = 3\<rparr>
   \<and> update_row_content 1 ''Led X'' \<lparr>trees = [paragraph_less_row], fresh = 4\<rparr>
     = Inr \<lparr>trees = [paragraph_less_row], fresh = 4\<rparr>"
proof -
  have 1: "deref \<lparr>trees = [cell_less_row], fresh = 3\<rparr> 1 = Some cell_less_row"
    by (simp add: deref_def cell_less_row_def)
  have 2: "find_elem W_tc cell_less_row = None"
    by (simp add: eval_xml cell_less_row_def)
  have 3: "deref \<lparr>trees = [paragraph_less_row], fresh = 4\<rparr> 1 = Some paragraph_less_row"
    by (simp add: deref_def paragraph_less_row_def)
  have 4: "\<exists>cell. find_elem W_tc paragraph_less_row = Some cell \<and> find_elem W_p cell = None"
    by (simp add: eval_xml paragraph_less_row_def)
  show ?thesis
    using malformed_row_untouched [OF 1, of "''Led X''"]
      malformed_row_untouched [OF 3, of "''Led X''"] 2 4
    by simp
qed

lemma remove_child_split:
  "remove_child i cs = Some remaining \<Longrightarrow>
   \<exists>before c after. cs = before @ c # after \<and> ident c = i
     \<and> i \<notin> ident ` set before \<and> remaining = before @ after"
proof (induction cs arbitrary: remaining)
  case Nil
  then show ?case by simp
next
  case (Cons c cs)
  show ?case
  proof (cases "ident c = i")
    case True
    with Cons.prems have "remaining = cs" by simp
    with True show ?thesis by (intro exI[of _ "[]"] exI[of _ c] exI[of _ cs]) simp
  next
    case False
    with Cons.prems obtain r where r: "remove_child i cs = Some r" and rem: "remaining = c # r"
      by (auto split: option.splits)
    from Cons.IH[OF r] obtain before d after where
      "cs = before @ d # after" "ident d = i" "i \<notin> ident ` set before" "r = before @ after"
      by blast
    with False rem show ?thesis
      by (intro exI[of _ "c # before"] exI[of _ d] exI[of _ after]) auto
  qed
qed

text \<open>The new paragraph of \<open>update_row_content\<close>, its elements numbered from \<open>n\<close>.\<close>

lemma update_row_content_replaces:
  assumes "deref st row = Some r"
    and "find_elem W_tc r = Some cell"
    and "find_elem W_p cell = Some paragraph"
    and "remove_child (ident paragraph) (children cell) = Some remaining"
  shows "update_row_content row new_text st =
     Inr (assign_children (ident cell)
           (remaining @
             [Elem (fresh st) W_p [] None
                ((case find_elem W_pPr paragraph of None \<Rightarrow> [] | Some p_pr \<Rightarrow> [p_pr]) @
                 [Elem (fresh st + 1) W_r [] None
                    ((case find_elem W_r paragraph of
                        None \<Rightarrow> []
                      | Some run \<Rightarrow>
                          (case find_elem W_rPr run of None \<Rightarrow> [] | Some r_pr \<Rightarrow> [r_pr])) @
                     [Elem (fresh st + 2) W_t [] (Some new_text) []])])])
           (st\<lparr>trees := trees st @ [paragraph], fresh := fresh st + 3\<rparr>))"
  using assms by (simp add: update_row_content_def Let_def split: option.splits)

text \<open>
  C4 (as amended). For a row whose first cell has a paragraph, found as a child of the
  cell, the update takes that first paragraph out of the cell and appends a new
  paragraph as the last child of the cell: the paragraph properties of the old one (if
  any), then one new run holding the run properties of its first run (if any) and one
  text node with the new text. The other runs of the old paragraph are gone with it;
  every other child of the cell, further paragraphs included, stays, in its order,
  before the new paragraph.
\<close>

theorem update_row_content_new_paragraph:
  assumes "deref st row = Some r"
    and "find_elem W_tc r = Some cell"
    and "find_elem W_p cell = Some paragraph"
    and "remove_child (ident paragraph) (children cell) = Some remaining"
  shows "\<exists>before p after.
     children cell = before @ p # after \<and> ident p = ident paragraph
     \<and> ident paragraph \<notin> ident ` set before
     \<and> update_row_content row new_text st =
        Inr (assign_children (ident cell)
              (before @ after @
                [Elem (fresh st) W_p [] None
                   ((case find_elem W_pPr paragraph of None \<Rightarrow> [] | Some p_pr \<Rightarrow> [p_pr]) @
                    [Elem (fresh st + 1) W_r [] None
                       ((case find_elem W_r paragraph of
                           None \<Rightarrow> []
                         | Some run \<Rightarrow>
                             (case find_elem W_rPr run of None \<Rightarrow> [] | Some r_pr \<Rightarrow> [r_pr])) @
                        [Elem (fresh st + 2) W_t [] (Some new_text) []])])])
              (st\<lparr>trees := trees st @ [paragraph], fresh := fresh st + 3\<rparr>))"
proof -
  from remove_child_split[OF assms(4)] obtain before p after where
    s: "children cell = before @ p # after" "ident p = ident paragraph"
       "ident paragraph \<notin> ident ` set before" "remaining = before @ after"
    by blast
  with update_row_content_replaces[OF assms, of new_text] show ?thesis
    by (intro exI[of _ before] exI[of _ p] exI[of _ after]) simp
qed

theorem update_row_content_new_paragraph_witness:
  "update_row_content 20 ''Led X'' \<lparr>trees = [bold_bullet_row 20 ''old''], fresh = 30\<rparr> =
     Inr \<lparr>trees =
            [Elem 20 W_tr [] None
               [Elem 21 W_tc [] None
                  [Elem 30 W_p [] None
                     [Elem 23 W_pPr [] None [Elem 24 (Other ''w:numPr'') [] None []],
                      Elem 31 W_r [] None
                        [Elem 26 W_rPr [] None [Elem 27 (Other ''w:b'') [] None []],
                         Elem 32 W_t [] (Some ''Led X'') []]]]],
             Elem 22 W_p [] None
               [Elem 23 W_pPr [] None [Elem 24 (Other ''w:numPr'') [] None []],
                Elem 25 W_r [] None
                  [Elem 26 W_rPr [] None [Elem 27 (Other ''w:b'') [] None []],
                   Elem 28 W_t [] (Some ''old'') []]]],
          fresh = 33\<rparr>"
proof -
  let ?p = "Elem 22 W_p [] None
               [Elem 23 W_pPr [] None [Elem 24 (Other ''w:numPr'') [] None []],
                Elem 25 W_r [] None
                  [Elem 26 W_rPr [] None [Elem 27 (Other ''w:b'') [] None []],
                   Elem 28 W_t [] (Some ''old'') []]]"
  let ?st = "\<lparr>trees = [bold_bullet_row 20 ''old''], fresh = 30\<rparr>"
  have 1: "deref ?st 20 = Some (bold_bullet_row 20 ''old'')"
    by (simp add: deref_def bold_bullet_row_def)
  have 2: "find_elem W_tc (bold_bullet_row 20 ''old'') = Some (Elem 21 W_tc [] None [?p])"
    by (simp add: eval_xml bold_bullet_row_def)
  have 3: "find_elem W_p (Elem 21 W_tc [] None [?p]) = Some ?p"
    by (simp add: eval_xml)
  have 4: "remove_child (ident ?p) (children (Elem 21 W_tc [] None [?p])) = Some []"
    by simp
  from update_row_content_new_paragraph [OF 1 2 3 4, of "''Led X''"]
  obtain before p after where
    c: "[?p] = before @ p # after"
    and u: "update_row_content 20 ''Led X'' ?st =
        Inr (assign_children 21
              (before @ after @
                [Elem 30 W_p [] None
                   ((case find_elem W_pPr ?p of None \<Rightarrow> [] | Some p_pr \<Rightarrow> [p_pr]) @
                    [Elem 31 W_r [] None
                       ((case find_elem W_r ?p of
                           None \<Rightarrow> []
                         | Some run \<Rightarrow>
                             (case find_elem W_rPr run of None \<Rightarrow> [] | Some r_pr \<Rightarrow> [r_pr])) @
                        [Elem 32 W_t [] (Some ''Led X'') []])])])
              (?st\<lparr>trees := trees ?st @ [?p], fresh := fresh ?st + 3\<rparr>))"
    by auto
  from c have "before = []" "after = []"
    by (simp_all add: append_eq_Cons_conv Cons_eq_append_conv)
  with u show ?thesis
    by (simp add: eval_xml assign_children_def bold_bullet_row_def)
qed

text \<open>
  C4 as stated fails: the cell of this row has two paragraphs, and the second one is
  still in the cell after the update, before the new paragraph.
\<close>

theorem second_paragraph_kept_counterexample:
  "update_row_content 1 ''Led X'' \<lparr>trees = [two_paragraph_row], fresh = 11\<rparr> =
     Inr \<lparr>trees =
            [Elem 1 W_tr [] None
               [Elem 2 W_tc [] None
                  [Elem 8 W_p [] None
                     [Elem 9 W_r [] None [Elem 10 W_t [] (Some ''second'') []]],
                   Elem 11 W_p [] None
                     [Elem 12 W_r [] None [Elem 13 W_t [] (Some ''Led X'') []]]]],
             Elem 3 W_p [] None
               [Elem 4 W_r [] None [Elem 5 W_t [] (Some ''first'') []],
                Elem 6 W_r [] None [Elem 7 W_t [] (Some ''more'') []]]],
          fresh = 14\<rparr>"
  by (simp add: two_paragraph_row_def update_row_content_def eval_xml eval_store)

section \<open>Properties of the modification run\<close>


text \<open>
  C5, at a section without a company on a table without a header row: the first row
  does not contain the title and the section has no company, and the first row is
  excluded all the same, because the default \<open>""\<close> of the missing key occurs in every
  text. The rewrite then keeps the first row, writes the first bullet into the second
  row and appends the second bullet: three rows for two bullets.
\<close>

theorem header_without_company:
  "company ml_pipeline = None
   \<and> \<not> py_in ''ML Pipeline'' (extract_row_text (hd (findall W_tr pipeline_table)))
   \<and> start_row_index (findall W_tr pipeline_table) ml_pipeline = Inr 1
   \<and> map_sum id (\<lambda>st. parse_table (hd (trees st)))
        (update_table_content 1 ml_pipeline \<lparr>trees = [pipeline_table], fresh = 30\<rparr>) =
      Inr \<lparr>rows = [[''Built data pipeline''], [''Built data pipeline''],
                   [''Deployed on AWS'']],
           total_rows = 3, total_columns = 1\<rparr>"
  by (simp add: ml_pipeline_def pipeline_table_def text_row_def bullet_def eval_rewrite
      parse_table_def extract_paragraph_text_def)
















section \<open>Properties of the table rewrite\<close>

lemma iter_Cons: "iter e = e # iters (children e)"
  by (cases e) simp

lemma iter_self: "e \<in> set (iter e)"
  by (cases e) simp

lemma iter_trans: "d \<in> set (iter e) \<Longrightarrow> set (iter d) \<subseteq> set (iter e)"
proof (induction e)
  case (Elem i t a x cs)
  show ?case
  proof (cases "d = Elem i t a x cs")
    case True
    then show ?thesis by simp
  next
    case False
    with Elem.prems obtain c where c: "c \<in> set cs" "d \<in> set (iter c)" by auto
    with Elem.IH have "set (iter d) \<subseteq> set (iter c)" by blast
    with c show ?thesis by auto
  qed
qed

lemma child_iter: "c \<in> set (children e) \<Longrightarrow> set (iter c) \<subseteq> set (iter e)"
  by (auto simp: iter_Cons[of e])

lemma findall_subset: "set (findall t e) \<subseteq> set (iters (children e))"
  by (auto simp: findall_def)

lemma find_elem_find:
  "find_elem t e = List.find (\<lambda>d. tag d = t) (iters (children e))"
proof -
  have "(case filter P xs of [] \<Rightarrow> None | d # _ \<Rightarrow> Some d) = List.find P xs" for P and xs :: "elem list"
    by (induction xs) auto
  then show ?thesis by (simp add: find_elem_def findall_def)
qed

lemma find_SomeD: "List.find P xs = Some d \<Longrightarrow> d \<in> set xs \<and> P d"
  by (induction xs) (auto split: if_splits)

lemma find_elem_Some:
  "find_elem t e = Some d \<Longrightarrow> d \<in> set (iters (children e)) \<and> tag d = t"
  unfolding find_elem_find by (rule find_SomeD)

lemma find_elem_None: "find_elem t e = None \<longleftrightarrow> findall t e = []"
  by (simp add: find_elem_def split: list.splits)

lemma findall_empty: "findall t e = [] \<longleftrightarrow> t \<notin> tag ` set (iters (children e))"
  unfolding findall_def filter_empty_conv by blast

lemma idents_Elem:
  "ident ` set (iter (Elem i t a x cs)) = insert i (\<Union>c \<in> set cs. ident ` set (iter c))"
  by (simp add: image_UN)

lemma tags_Elem:
  "tag ` set (iter (Elem i t a x cs)) = insert t (\<Union>c \<in> set cs. tag ` set (iter c))"
  by (simp add: image_UN)

lemma idents_iters: "ident ` set (iters cs) = (\<Union>c \<in> set cs. ident ` set (iter c))"
  by (induction cs) (simp_all add: image_Un)

lemma tags_iters: "tag ` set (iters cs) = (\<Union>c \<in> set cs. tag ` set (iter c))"
  by (induction cs) (simp_all add: image_Un)

lemma set_children_other:
  "i \<notin> ident ` set (iter e) \<Longrightarrow> set_children i new e = e"
proof (induction e)
  case (Elem j t a x cs)
  from Elem.prems have ji: "j \<noteq> i" and cs: "\<forall>c \<in> set cs. i \<notin> ident ` set (iter c)"
    unfolding idents_Elem by blast+
  have "map (set_children i new) cs = cs"
  proof (rule map_idI)
    fix c assume c: "c \<in> set cs"
    with cs Elem.IH show "set_children i new c = c" by blast
  qed
  with ji show ?case by simp
qed

lemma set_children_root [simp]:
  "ident (set_children i new e) = ident e" "tag (set_children i new e) = tag e"
  by (cases e; simp)+

lemma in_idents_Elem:
  "y \<in> ident ` set (iter (Elem i t a x cs)) \<longleftrightarrow>
   y = i \<or> (\<exists>c \<in> set cs. y \<in> ident ` set (iter c))"
  unfolding idents_Elem by blast

lemma in_tags_Elem:
  "y \<in> tag ` set (iter (Elem i t a x cs)) \<longleftrightarrow>
   y = t \<or> (\<exists>c \<in> set cs. y \<in> tag ` set (iter c))"
  unfolding tags_Elem by blast

lemma in_idents_iters:
  "y \<in> ident ` set (iters cs) \<longleftrightarrow> (\<exists>c \<in> set cs. y \<in> ident ` set (iter c))"
  unfolding idents_iters by blast

lemma in_tags_iters:
  "y \<in> tag ` set (iters cs) \<longleftrightarrow> (\<exists>c \<in> set cs. y \<in> tag ` set (iter c))"
  unfolding tags_iters by blast

lemma idents_set_children:
  "y \<in> ident ` set (iter (set_children i new e)) \<Longrightarrow>
   y \<in> ident ` set (iter e) \<or> y \<in> ident ` set (iters new)"
proof (induction e)
  case (Elem j t a x cs)
  show ?case
  proof (cases "j = i")
    case True
    with Elem.prems have "y \<in> ident ` set (iter (Elem j t a x new))" by simp
    then have "y = j \<or> y \<in> ident ` set (iters new)"
      unfolding in_idents_Elem in_idents_iters .
    then show ?thesis unfolding in_idents_Elem[of y j t a x cs] by blast
  next
    case False
    with Elem.prems have "y \<in> ident ` set (iter (Elem j t a x (map (set_children i new) cs)))"
      by simp
    then have "y = j \<or> (\<exists>c \<in> set cs. y \<in> ident ` set (iter (set_children i new c)))"
      unfolding in_idents_Elem by (simp only: set_map bex_simps image_iff)
    with Elem.IH show ?thesis unfolding in_idents_Elem[of y j t a x cs] by blast
  qed
qed

lemma tags_set_children:
  "y \<in> tag ` set (iter (set_children i new e)) \<Longrightarrow>
   y \<in> tag ` set (iter e) \<or> y \<in> tag ` set (iters new)"
proof (induction e)
  case (Elem j t a x cs)
  show ?case
  proof (cases "j = i")
    case True
    with Elem.prems have "y \<in> tag ` set (iter (Elem j t a x new))" by simp
    then have "y = t \<or> y \<in> tag ` set (iters new)"
      unfolding in_tags_Elem in_tags_iters .
    then show ?thesis unfolding in_tags_Elem[of y j t a x cs] by blast
  next
    case False
    with Elem.prems have "y \<in> tag ` set (iter (Elem j t a x (map (set_children i new) cs)))"
      by simp
    then have "y = t \<or> (\<exists>c \<in> set cs. y \<in> tag ` set (iter (set_children i new c)))"
      unfolding in_tags_Elem by (simp only: set_map bex_simps image_iff)
    with Elem.IH show ?thesis unfolding in_tags_Elem[of y j t a x cs] by blast
  qed
qed

lemma desc_tags_set_children:
  assumes "y \<in> tag ` set (iters (children (set_children i new e)))"
  shows "y \<in> tag ` set (iters (children e)) \<or> y \<in> tag ` set (iters new)"
proof (cases e)
  case (Elem j t a x cs)
  show ?thesis
  proof (cases "j = i")
    case True
    with Elem assms show ?thesis by simp
  next
    case False
    with Elem assms have "y \<in> tag ` set (iters (map (set_children i new) cs))" by simp
    then have "\<exists>c \<in> set cs. y \<in> tag ` set (iter (set_children i new c))"
      unfolding in_tags_iters by (simp only: set_map bex_simps image_iff)
    then obtain c where c: "c \<in> set cs" "y \<in> tag ` set (iter (set_children i new c))" by blast
    from tags_set_children[OF c(2)] c(1) Elem show ?thesis
      unfolding in_tags_iters[of y "children e"] by auto
  qed
qed

lemma find_app:
  "List.find P (xs @ ys) = (case List.find P xs of None \<Rightarrow> List.find P ys | Some x \<Rightarrow> Some x)"
  by (induction xs) auto

lemma find_none_app: "\<forall>x \<in> set xs. \<not> P x \<Longrightarrow> List.find P (xs @ ys) = List.find P ys"
  by (induction xs) auto

lemma find_iter_hd: "List.find (\<lambda>d. ident d = ident e) (iter e @ others) = Some e"
  by (cases e) simp

lemma deref_root: "trees st = T # junk \<Longrightarrow> deref st (ident T) = Some T"
  by (simp add: deref_def find_iter_hd)

lemma deref_after:
  assumes "trees st = ts @ r # others"
    and "\<forall>e \<in> set (iters ts). ident e \<noteq> ident r"
  shows "deref st (ident r) = Some r"
proof -
  have "iters (trees st) = iters ts @ (iter r @ iters others)"
    by (simp add: assms(1))
  then show ?thesis
    using assms(2) by (simp only: deref_def find_none_app find_iter_hd)
qed

lemma deref_child:
  assumes "trees st = Elem tid tg a x (xs @ c # ys) # junk"
    and "tid \<noteq> ident c"
    and "ident c \<notin> ident ` set (iters xs)"
  shows "deref st (ident c) = Some c"
proof -
  have "iters (trees st) = (Elem tid tg a x (xs @ c # ys) # iters xs) @ (iter c @ (iters ys @ iters junk))"
    by (simp add: assms(1))
  moreover have "ident e \<noteq> ident c" if "e \<in> set (iters xs)" for e
    using that assms(3) by (metis imageI)
  then have "\<forall>e \<in> set (Elem tid tg a x (xs @ c # ys) # iters xs). ident e \<noteq> ident c"
    using assms(2) by simp
  ultimately show ?thesis
    by (simp only: deref_def find_none_app find_iter_hd)
qed

lemma update_row_content_malformed:
  assumes "deref st row = Some r"
    and "find_elem W_tc r = None
         \<or> (\<exists>cell. find_elem W_tc r = Some cell \<and> find_elem W_p cell = None)"
  shows "update_row_content row new_text st = Inr st"
  using assms by (auto simp: update_row_content_def)

lemma update_row_content_wf:
  assumes "deref st row = Some r"
    and "find_elem W_tc r = Some cell"
    and "find_elem W_p cell = Some paragraph"
    and "remove_child (ident paragraph) (children cell) = Some remaining"
  shows "update_row_content row new_text st =
     Inr (assign_children (ident cell)
           (remaining @ [new_paragraph (fresh st) new_text paragraph])
           (st\<lparr>trees := trees st @ [paragraph], fresh := fresh st + 3\<rparr>))"
  using assms
  by (simp add: update_row_content_def new_paragraph_def Let_def split: option.splits)

lemma remove_child_Some: "c \<in> set cs \<Longrightarrow> \<exists>r. remove_child (ident c) cs = Some r"
  by (induction cs) (auto split: option.splits)

lemma remove_child_subset: "remove_child i cs = Some r \<Longrightarrow> set r \<subseteq> set cs"
  by (induction cs arbitrary: r) (auto split: if_splits option.splits)

lemma first_paragraph_child:
  assumes "find_elem W_p cell = Some p"
    and "list_all (\<lambda>c. findall W_p c = []) (children cell)"
  shows "p \<in> set (children cell)"
proof -
  from find_elem_Some[OF assms(1)] obtain c where
    c: "c \<in> set (children cell)" "p \<in> set (iter c)" and tp: "tag p = W_p"
    by auto
  from assms(2) c(1) have "W_p \<notin> tag ` set (iters (children c))"
    by (simp add: list_all_iff findall_empty)
  with tp have "p \<notin> set (iters (children c))" by (metis imageI)
  with c(2) have "p = c" by (simp add: iter_Cons[of c])
  with c(1) show ?thesis by simp
qed

lemma paragraphs_direct_remove:
  assumes "paragraphs_direct r" "find_elem W_tc r = Some cell" "find_elem W_p cell = Some p"
  shows "\<exists>remaining. remove_child (ident p) (children cell) = Some remaining"
proof -
  from assms(1,2) have "list_all (\<lambda>c. findall W_p c = []) (children cell)"
    by (simp add: paragraphs_direct_def)
  from first_paragraph_child[OF assms(3) this] show ?thesis by (rule remove_child_Some)
qed

lemma deref_single: "deref \<lparr>trees = [r], fresh = n\<rparr> (ident r) = Some r"
  by (rule deref_root) simp

lemma updated_row_malformed:
  assumes "find_elem W_tc r = None
         \<or> (\<exists>cell. find_elem W_tc r = Some cell \<and> find_elem W_p cell = None)"
  shows "updated_row n new_text r = r" "updated_fresh n new_text r = n"
  using assms by (auto simp: updated_row_def updated_fresh_def)

lemma updated_row_wf:
  assumes "find_elem W_tc r = Some cell"
    and "find_elem W_p cell = Some paragraph"
    and "remove_child (ident paragraph) (children cell) = Some remaining"
  shows "updated_row n new_text r =
           set_children (ident cell) (remaining @ [new_paragraph n new_text paragraph]) r"
    "updated_fresh n new_text r = n + 3"
  using assms by (simp_all add: updated_row_def updated_fresh_def)

lemma updated_row_cases:
  assumes "paragraphs_direct r"
  obtains (malformed) "updated_row n new_text r = r" "updated_fresh n new_text r = n"
      "find_elem W_tc r = None
         \<or> (\<exists>cell. find_elem W_tc r = Some cell \<and> find_elem W_p cell = None)"
  | (wf) cell para remaining where
      "find_elem W_tc r = Some cell" "find_elem W_p cell = Some para"
      "remove_child (ident para) (children cell) = Some remaining"
      "updated_row n new_text r =
           set_children (ident cell) (remaining @ [new_paragraph n new_text para]) r"
      "updated_fresh n new_text r = n + 3"
proof (cases "find_elem W_tc r")
  case None
  with updated_row_malformed[of r n new_text] malformed show ?thesis by simp
next
  case (Some cell)
  show ?thesis
  proof (cases "find_elem W_p cell")
    case None
    with Some updated_row_malformed[of r n new_text] malformed show ?thesis by simp
  next
    case p: (Some para)
    from paragraphs_direct_remove[OF assms Some p] obtain remaining where
      "remove_child (ident para) (children cell) = Some remaining" by blast
    with updated_row_wf[OF Some p this] Some p wf show ?thesis by blast
  qed
qed

lemma updated_row_cases_all:
  obtains (same) "updated_row n new_text r = r" "updated_fresh n new_text r = n"
  | (wf) cell para remaining where
      "find_elem W_tc r = Some cell" "find_elem W_p cell = Some para"
      "remove_child (ident para) (children cell) = Some remaining"
      "updated_row n new_text r =
           set_children (ident cell) (remaining @ [new_paragraph n new_text para]) r"
      "updated_fresh n new_text r = n + 3"
proof (cases "find_elem W_tc r")
  case None
  with updated_row_malformed[of r n new_text] same show ?thesis by simp
next
  case (Some cell)
  show ?thesis
  proof (cases "find_elem W_p cell")
    case None
    with Some updated_row_malformed[of r n new_text] same show ?thesis by simp
  next
    case p: (Some para)
    show ?thesis
    proof (cases "remove_child (ident para) (children cell)")
      case None
      with Some p show ?thesis using same by (simp add: updated_row_def updated_fresh_def)
    next
      case (Some remaining)
      with updated_row_wf[OF \<open>find_elem W_tc r = Some cell\<close> p Some]
        \<open>find_elem W_tc r = Some cell\<close> p wf show ?thesis by blast
    qed
  qed
qed

lemma updated_row_root [simp]:
  "ident (updated_row n new_text r) = ident r" "tag (updated_row n new_text r) = tag r"
  by (cases rule: updated_row_cases_all[of n new_text r]; simp)+

lemma updated_fresh_bounds:
  "n \<le> updated_fresh n new_text r" "updated_fresh n new_text r \<le> n + 3"
  by (cases rule: updated_row_cases_all[of n new_text r]; simp)+

lemma find_elem_iter: "find_elem t e = Some d \<Longrightarrow> set (iter d) \<subseteq> set (iters (children e))"
proof -
  assume "find_elem t e = Some d"
  from find_elem_Some[OF this] obtain c where c: "c \<in> set (children e)" "d \<in> set (iter c)"
    by auto
  from iter_trans[OF c(2)] c(1) show ?thesis by auto
qed

lemma find_elem_iter': "find_elem t e = Some d \<Longrightarrow> set (iter d) \<subseteq> set (iter e)"
  using find_elem_iter[of t e d] by (auto simp: iter_Cons[of e])

lemma new_paragraph_elems:
  assumes "d \<in> set (iter (new_paragraph n new_text p))"
  shows "(ident d = n \<and> tag d = W_p) \<or> (ident d = n + 1 \<and> tag d = W_r)
         \<or> (ident d = n + 2 \<and> tag d = W_t) \<or> d \<in> set (iters (children p))"
proof -
  define P where "P = (case find_elem W_pPr p of None \<Rightarrow> [] | Some p_pr \<Rightarrow> [p_pr])"
  define R where "R = (case find_elem W_r p of
               None \<Rightarrow> []
             | Some run \<Rightarrow> (case find_elem W_rPr run of None \<Rightarrow> [] | Some r_pr \<Rightarrow> [r_pr]))"
  have P: "set (iters P) \<subseteq> set (iters (children p))"
  proof (cases "find_elem W_pPr p")
    case None
    then show ?thesis by (simp add: P_def)
  next
    case (Some e)
    with find_elem_iter[OF Some] show ?thesis by (simp add: P_def)
  qed
  have R: "set (iters R) \<subseteq> set (iters (children p))"
  proof (cases "find_elem W_r p")
    case None
    then show ?thesis by (simp add: R_def)
  next
    case (Some run)
    show ?thesis
    proof (cases "find_elem W_rPr run")
      case None
      with Some show ?thesis by (simp add: R_def)
    next
      case rpr: (Some e)
      from find_elem_iter'[OF rpr] find_elem_iter[OF Some]
      have "set (iter e) \<subseteq> set (iters (children p))" by blast
      with Some rpr show ?thesis by (simp add: R_def)
    qed
  qed
  have np: "new_paragraph n new_text p =
      Elem n W_p [] None (P @ [Elem (n + 1) W_r [] None (R @ [Elem (n + 2) W_t [] (Some new_text) []])])"
    by (simp add: new_paragraph_def P_def R_def)
  from assms have "d = Elem n W_p [] None (P @ [Elem (n + 1) W_r [] None (R @ [Elem (n + 2) W_t [] (Some new_text) []])])
      \<or> d \<in> set (iters P)
      \<or> d = Elem (n + 1) W_r [] None (R @ [Elem (n + 2) W_t [] (Some new_text) []])
      \<or> d \<in> set (iters R)
      \<or> d = Elem (n + 2) W_t [] (Some new_text) []"
    unfolding np by (simp del: set_concat) blast
  with P R show ?thesis by (elim disjE) auto
qed

lemma updated_row_elems:
  assumes "d \<in> set (iter (updated_row n new_text r))"
  shows "ident d \<in> ident ` set (iter r) \<or> ident d \<in> {n, n + 1, n + 2}"
proof (cases rule: updated_row_cases_all[of n new_text r])
  case same
  with assms show ?thesis by auto
next
  case (wf cell para remaining)
  let ?new = "remaining @ [new_paragraph n new_text para]"
  from assms wf(4) have "ident d \<in> ident ` set (iter (set_children (ident cell) ?new r))"
    by simp
  from idents_set_children[OF this] show ?thesis
  proof
    assume "ident d \<in> ident ` set (iter r)"
    then show ?thesis by simp
  next
    assume "ident d \<in> ident ` set (iters ?new)"
    then obtain e where e: "e \<in> set (iters ?new)" "ident e = ident d" by (metis imageE)
    have cell: "set (iter cell) \<subseteq> set (iter r)" using find_elem_iter'[OF wf(1)] .
    have para: "set (iter para) \<subseteq> set (iter cell)" using find_elem_iter'[OF wf(2)] .
    from e(1) have "e \<in> set (iters remaining) \<or> e \<in> set (iter (new_paragraph n new_text para))"
      by simp
    then consider (1) "e \<in> set (iters remaining)"
      | (2) "e \<in> set (iter (new_paragraph n new_text para))" by blast
    then show ?thesis
    proof cases
      case 1
      then obtain c where 1: "c \<in> set remaining" "e \<in> set (iter c)" by auto
      with remove_child_subset[OF wf(3)] have "c \<in> set (children cell)" by blast
      from child_iter[OF this] 1(2) cell have "e \<in> set (iter r)" by blast
      with e(2) show ?thesis by (metis imageI)
    next
      case 2
      from new_paragraph_elems[OF 2] show ?thesis
      proof (elim disjE)
        assume "e \<in> set (iters (children para))"
        then have "e \<in> set (iter para)" by (simp add: iter_Cons[of para])
        with para cell have "e \<in> set (iter r)" by blast
        with e(2) show ?thesis by (metis imageI)
      qed (use e(2) in auto)
    qed
  qed
qed

lemma updated_row_flat:
  assumes "findall W_tr r = []"
  shows "findall W_tr (updated_row n new_text r) = []"
proof (cases rule: updated_row_cases_all[of n new_text r])
  case same
  with assms show ?thesis by simp
next
  case (wf cell para remaining)
  let ?new = "remaining @ [new_paragraph n new_text para]"
  have cell: "set (iter cell) \<subseteq> set (iters (children r))" using find_elem_iter[OF wf(1)] .
  have para: "set (iter para) \<subseteq> set (iter cell)" using find_elem_iter'[OF wf(2)] .
  from assms have no: "W_tr \<notin> tag ` set (iters (children r))" by (simp add: findall_empty)
  have "W_tr \<notin> tag ` set (iters ?new)"
  proof
    assume "W_tr \<in> tag ` set (iters ?new)"
    then obtain e where e: "e \<in> set (iters ?new)" "tag e = W_tr" by (metis imageE)
    from e(1) have "e \<in> set (iters remaining) \<or> e \<in> set (iter (new_paragraph n new_text para))"
      by simp
    then consider (1) "e \<in> set (iters remaining)"
      | (2) "e \<in> set (iter (new_paragraph n new_text para))" by blast
    then show False
    proof cases
      case 1
      then obtain c where 1: "c \<in> set remaining" "e \<in> set (iter c)" by auto
      with remove_child_subset[OF wf(3)] have "c \<in> set (children cell)" by blast
      from child_iter[OF this] 1(2) cell have "e \<in> set (iters (children r))" by blast
      with e(2) no show False by (metis imageI)
    next
      case 2
      from new_paragraph_elems[OF 2] e(2) have "e \<in> set (iters (children para))" by auto
      then have "e \<in> set (iter para)" by (simp add: iter_Cons[of para])
      with para cell have "e \<in> set (iters (children r))" by blast
      with e(2) no show False by (metis imageI)
    qed
  qed
  with no desc_tags_set_children[of W_tr "ident cell" ?new r]
  have "W_tr \<notin> tag ` set (iters (children (set_children (ident cell) ?new r)))" by blast
  with wf(4) show ?thesis by (simp add: findall_empty)
qed

lemma distinct_iter_Elem:
  assumes "distinct (map ident (iter (Elem j t a x cs)))"
  shows "j \<notin> ident ` set (iters cs)" "distinct (map ident (iters cs))"
  using assms by simp_all

lemma distinct_iters_Cons:
  assumes "distinct (map ident (iters (c # cs)))"
  shows "distinct (map ident (iter c))" "distinct (map ident (iters cs))"
    "ident ` set (iter c) \<inter> ident ` set (iters cs) = {}"
  using assms by simp_all

lemma distinct_iters_member:
  "distinct (map ident (iters cs)) \<Longrightarrow> c \<in> set cs \<Longrightarrow> distinct (map ident (iter c))"
proof (induction cs)
  case Nil
  then show ?case by simp
next
  case (Cons a cs)
  from distinct_iters_Cons[OF Cons.prems(1)] Cons.IH Cons.prems(2) show ?case by auto
qed

lemma find_iters_set_children:
  assumes "distinct (map ident (iters cs))"
    and "List.find Q (iters cs) = Some d"
    and "\<And>c. c \<in> set cs \<Longrightarrow> List.find Q (iter c) = Some d \<Longrightarrow>
           List.find Q (iter (set_children (ident d) new c)) = Some d'"
  shows "List.find Q (iters (map (set_children (ident d) new) cs)) = Some d'"
  using assms
proof (induction cs)
  case Nil
  then show ?case by simp
next
  case (Cons c cs)
  note dist = distinct_iters_Cons[OF Cons.prems(1)]
  show ?case
  proof (cases "List.find Q (iter c)")
    case (Some d0)
    with Cons.prems(2) have "d0 = d" by (simp add: find_app)
    with Some Cons.prems(3)[of c] have "List.find Q (iter (set_children (ident d) new c)) = Some d'"
      by simp
    then show ?thesis by (simp add: find_app)
  next
    case None
    with Cons.prems(2) have rest: "List.find Q (iters cs) = Some d" by (simp add: find_app)
    from find_SomeD[OF rest] have "ident d \<in> ident ` set (iters cs)" by (metis imageI)
    with dist(3) have "ident d \<notin> ident ` set (iter c)" by blast
    then have "set_children (ident d) new c = c" by (rule set_children_other)
    moreover have "List.find Q (iters (map (set_children (ident d) new) cs)) = Some d'"
      using Cons.IH[OF dist(2) rest] Cons.prems(3) by simp
    ultimately show ?thesis using None by (simp add: find_app)
  qed
qed

lemma find_iter_set_children:
  assumes "distinct (map ident (iter e))"
    and "List.find (\<lambda>d. tag d = t) (iter e) = Some d"
  shows "List.find (\<lambda>d. tag d = t) (iter (set_children (ident d) new e))
         = Some (Elem (ident d) (tag d) (attrib d) (etext d) new)"
  using assms
proof (induction e)
  case (Elem j t' a x cs)
  note dist = distinct_iter_Elem[OF Elem.prems(1)]
  show ?case
  proof (cases "t' = t")
    case True
    with Elem.prems(2) have "d = Elem j t' a x cs" by simp
    with True show ?thesis by simp
  next
    case False
    with Elem.prems(2) have f: "List.find (\<lambda>d. tag d = t) (iters cs) = Some d" by simp
    from find_SomeD[OF f] have "ident d \<in> ident ` set (iters cs)" by (metis imageI)
    with dist(1) have ne: "j \<noteq> ident d" by blast
    have "List.find (\<lambda>d. tag d = t) (iters (map (set_children (ident d) new) cs))
          = Some (Elem (ident d) (tag d) (attrib d) (etext d) new)"
    proof (rule find_iters_set_children[OF dist(2) f])
      fix c assume c: "c \<in> set cs" and fc: "List.find (\<lambda>d. tag d = t) (iter c) = Some d"
      from distinct_iters_member[OF dist(2) c] fc Elem.IH[OF c]
      show "List.find (\<lambda>d. tag d = t) (iter (set_children (ident d) new c))
          = Some (Elem (ident d) (tag d) (attrib d) (etext d) new)" by blast
    qed
    with ne False show ?thesis by simp
  qed
qed

lemma find_elem_set_children:
  assumes "distinct (map ident (iter e))"
    and "find_elem t e = Some d"
  shows "find_elem t (set_children (ident d) new e)
         = Some (Elem (ident d) (tag d) (attrib d) (etext d) new)"
proof (cases e)
  case (Elem j t' a x cs)
  note dist = distinct_iter_Elem[OF assms(1)[unfolded Elem]]
  from assms(2) Elem have f: "List.find (\<lambda>d. tag d = t) (iters cs) = Some d"
    by (simp add: find_elem_find)
  from find_SomeD[OF f] have "ident d \<in> ident ` set (iters cs)" by (metis imageI)
  with dist(1) have ne: "j \<noteq> ident d" by blast
  have "List.find (\<lambda>d. tag d = t) (iters (map (set_children (ident d) new) cs))
          = Some (Elem (ident d) (tag d) (attrib d) (etext d) new)"
  proof (rule find_iters_set_children[OF dist(2) f])
    fix c assume c: "c \<in> set cs" and fc: "List.find (\<lambda>d. tag d = t) (iter c) = Some d"
    from find_iter_set_children[OF distinct_iters_member[OF dist(2) c] fc]
    show "List.find (\<lambda>d. tag d = t) (iter (set_children (ident d) new c))
          = Some (Elem (ident d) (tag d) (attrib d) (etext d) new)" .
  qed
  with ne Elem show ?thesis by (simp add: find_elem_find)
qed

lemma new_paragraph_root [simp]:
  "ident (new_paragraph n new_text p) = n" "tag (new_paragraph n new_text p) = W_p"
  by (simp_all add: new_paragraph_def)

lemma new_paragraph_desc:
  assumes "d \<in> set (iters (children (new_paragraph n new_text p)))"
  shows "tag d = W_r \<or> tag d = W_t \<or> d \<in> set (iters (children p))"
proof -
  define P where "P = (case find_elem W_pPr p of None \<Rightarrow> [] | Some p_pr \<Rightarrow> [p_pr])"
  define R where "R = (case find_elem W_r p of
               None \<Rightarrow> []
             | Some run \<Rightarrow> (case find_elem W_rPr run of None \<Rightarrow> [] | Some r_pr \<Rightarrow> [r_pr]))"
  have P: "set (iters P) \<subseteq> set (iters (children p))"
  proof (cases "find_elem W_pPr p")
    case None
    then show ?thesis by (simp add: P_def)
  next
    case (Some e)
    with find_elem_iter[OF Some] show ?thesis by (simp add: P_def)
  qed
  have R: "set (iters R) \<subseteq> set (iters (children p))"
  proof (cases "find_elem W_r p")
    case None
    then show ?thesis by (simp add: R_def)
  next
    case (Some run)
    show ?thesis
    proof (cases "find_elem W_rPr run")
      case None
      with Some show ?thesis by (simp add: R_def)
    next
      case rpr: (Some e)
      from find_elem_iter'[OF rpr] find_elem_iter[OF Some]
      have "set (iter e) \<subseteq> set (iters (children p))" by blast
      with Some rpr show ?thesis by (simp add: R_def)
    qed
  qed
  have np: "children (new_paragraph n new_text p) =
      P @ [Elem (n + 1) W_r [] None (R @ [Elem (n + 2) W_t [] (Some new_text) []])]"
    by (simp add: new_paragraph_def P_def R_def)
  from assms have "d \<in> set (iters P)
      \<or> d = Elem (n + 1) W_r [] None (R @ [Elem (n + 2) W_t [] (Some new_text) []])
      \<or> d \<in> set (iters R)
      \<or> d = Elem (n + 2) W_t [] (Some new_text) []"
    unfolding np by (simp del: set_concat) blast
  with P R show ?thesis by (elim disjE) auto
qed

lemma updated_row_paragraphs_direct:
  assumes "paragraphs_direct r" and "distinct (map ident (iter r))"
  shows "paragraphs_direct (updated_row n new_text r)"
proof (cases rule: updated_row_cases_all[of n new_text r])
  case same
  with assms(1) show ?thesis by simp
next
  case (wf cell para remaining)
  let ?new = "remaining @ [new_paragraph n new_text para]"
  from assms(1) wf(1) have pd: "list_all (\<lambda>c. findall W_p c = []) (children cell)"
    by (simp add: paragraphs_direct_def)
  from first_paragraph_child[OF wf(2) pd] have pc: "para \<in> set (children cell)" .
  with pd have np: "W_p \<notin> tag ` set (iters (children para))"
    by (simp add: list_all_iff findall_empty)
  have "findall W_p (new_paragraph n new_text para) = []"
    unfolding findall_empty
  proof
    assume "W_p \<in> tag ` set (iters (children (new_paragraph n new_text para)))"
    then obtain d where d: "d \<in> set (iters (children (new_paragraph n new_text para)))"
      "tag d = W_p" by (metis imageE)
    from new_paragraph_desc[OF d(1)] d(2) have "d \<in> set (iters (children para))" by auto
    with d(2) np show False by (metis imageI)
  qed
  moreover have "list_all (\<lambda>c. findall W_p c = []) remaining"
    using pd remove_child_subset[OF wf(3)] by (auto simp: list_all_iff)
  ultimately have "list_all (\<lambda>c. findall W_p c = []) ?new" by simp
  moreover from find_elem_set_children[OF assms(2) wf(1), of ?new] wf(4)
  have "find_elem W_tc (updated_row n new_text r)
        = Some (Elem (ident cell) (tag cell) (attrib cell) (etext cell) ?new)" by simp
  ultimately show ?thesis by (simp add: paragraphs_direct_def)
qed

lemma parsed_shape:
  "same_shape e (fst (parsed n e))"
  "list_all2 same_shape cs (fst (parsed_list n cs))"
  by (induction n e and n cs rule: parsed_parsed_list.induct) (auto split: prod.splits)

lemma parsed_root [simp]: "ident (fst (parsed n e)) = n" "tag (fst (parsed n e)) = tag e"
  by (cases e; simp split: prod.splits)+

lemma parsed_bounds:
  "n < snd (parsed n e) \<and> (\<forall>d \<in> set (iter (fst (parsed n e))). n \<le> ident d \<and> ident d < snd (parsed n e))"
  "n \<le> snd (parsed_list n cs) \<and> (\<forall>d \<in> set (iters (fst (parsed_list n cs))). n \<le> ident d \<and> ident d < snd (parsed_list n cs))"
proof (induction n e and n cs rule: parsed_parsed_list.induct)
  case (1 n i t a x cs)
  then show ?case by (auto split: prod.splits) (fastforce+)?
next
  case (2 n)
  then show ?case by simp
next
  case (3 n c cs)
  then show ?case by (auto split: prod.splits) (fastforce+)?
qed

lemma same_shape_tag: "same_shape e e' \<Longrightarrow> tag e = tag e'"
  by (cases e; cases e') simp

lemma same_shape_children: "same_shape e e' \<Longrightarrow> list_all2 same_shape (children e) (children e')"
  by (cases e; cases e') simp

lemma list_all2_concat:
  "list_all2 (list_all2 R) xss yss \<Longrightarrow> list_all2 R (concat xss) (concat yss)"
  by (induction rule: list_all2_induct) (auto intro: list_all2_appendI)

lemma same_shape_iter: "same_shape e e' \<Longrightarrow> list_all2 same_shape (iter e) (iter e')"
proof (induction e arbitrary: e')
  case (Elem i t a x cs)
  obtain i' t' a' x' cs' where e': "e' = Elem i' t' a' x' cs'" by (cases e')
  with Elem.prems have cs: "list_all2 same_shape cs cs'" by simp
  have "list_all2 (list_all2 same_shape) (map iter cs) (map iter cs')"
    unfolding list_all2_map1 list_all2_map2
    using cs Elem.IH by (auto simp: list_all2_conv_all_nth)
  from list_all2_concat[OF this] Elem.prems e' show ?case by simp
qed

lemma same_shape_iters:
  "list_all2 same_shape cs cs' \<Longrightarrow> list_all2 same_shape (iters cs) (iters cs')"
proof -
  assume cs: "list_all2 same_shape cs cs'"
  have "list_all2 (list_all2 same_shape) (map iter cs) (map iter cs')"
    unfolding list_all2_map1 list_all2_map2
    using cs same_shape_iter by (auto simp: list_all2_conv_all_nth)
  then show ?thesis by (rule list_all2_concat)
qed

lemma same_shape_tags:
  "list_all2 same_shape xs ys \<Longrightarrow> map tag xs = map tag ys"
  by (induction rule: list_all2_induct) (auto dest: same_shape_tag)

lemma same_shape_find:
  "list_all2 same_shape xs ys \<Longrightarrow> List.find (\<lambda>d. tag d = t) ys = Some d' \<Longrightarrow>
   \<exists>d. List.find (\<lambda>d. tag d = t) xs = Some d \<and> same_shape d d'"
  by (induction rule: list_all2_induct) (auto dest: same_shape_tag split: if_splits)

lemma same_shape_findall_empty:
  assumes "same_shape c c'" "findall t c = []"
  shows "findall t c' = []"
proof -
  from same_shape_tags[OF same_shape_iters[OF same_shape_children[OF assms(1)]]]
  have "tag ` set (iters (children c)) = tag ` set (iters (children c'))"
    by (metis set_map)
  with assms(2) show ?thesis by (simp add: findall_empty)
qed

lemma list_all2_right:
  "list_all2 R xs ys \<Longrightarrow> y \<in> set ys \<Longrightarrow> \<exists>x \<in> set xs. R x y"
  by (induction rule: list_all2_induct) auto

lemma same_shape_paragraphs_direct:
  assumes "same_shape r r'" "paragraphs_direct r"
  shows "paragraphs_direct r'"
proof (cases "find_elem W_tc r'")
  case None
  then show ?thesis by (simp add: paragraphs_direct_def)
next
  case (Some cell')
  from same_shape_find[OF same_shape_iters[OF same_shape_children[OF assms(1)]]
      Some[unfolded find_elem_find]]
  obtain cell where cell: "find_elem W_tc r = Some cell" "same_shape cell cell'"
    by (auto simp: find_elem_find)
  from assms(2) cell(1) have pd: "list_all (\<lambda>c. findall W_p c = []) (children cell)"
    by (simp add: paragraphs_direct_def)
  have "findall W_p c' = []" if "c' \<in> set (children cell')" for c'
  proof -
    from list_all2_right[OF same_shape_children[OF cell(2)] that] obtain c where
      "c \<in> set (children cell)" "same_shape c c'"
      by blast
    with pd same_shape_findall_empty show ?thesis by (auto simp: list_all_iff)
  qed
  with Some show ?thesis by (simp add: paragraphs_direct_def list_all_iff)
qed

lemma parsed_paragraphs_direct:
  "paragraphs_direct r \<Longrightarrow> paragraphs_direct (fst (parsed n r))"
  using same_shape_paragraphs_direct[OF parsed_shape(1)] .

lemma parsed_flat: "findall t r = [] \<Longrightarrow> findall t (fst (parsed n r)) = []"
  using same_shape_findall_empty[OF parsed_shape(1)] .

lemma clone_Inr: "serializable e \<Longrightarrow> clone n e = Inr (parsed n e)"
  by (simp add: clone_def)

lemma serializableD: "serializable e \<Longrightarrow> d \<in> set (iter e) \<Longrightarrow> xml_element d"
  unfolding serializable_def list_all_iff by blast

lemma serializableI: "(\<And>d. d \<in> set (iter e) \<Longrightarrow> xml_element d) \<Longrightarrow> serializable e"
  unfolding serializable_def list_all_iff by blast

lemma xml_element_same:
  "attrib d = attrib d0 \<Longrightarrow> etext d = etext d0 \<Longrightarrow> xml_element d0 \<Longrightarrow> xml_element d"
  by (simp add: xml_element_def)

lemma set_children_own:
  "d \<in> set (iter (set_children i new e)) \<Longrightarrow>
   (\<exists>d0 \<in> set (iter e). attrib d = attrib d0 \<and> etext d = etext d0) \<or> d \<in> set (iters new)"
proof (induction e)
  case (Elem j t a x cs)
  show ?case
  proof (cases "j = i")
    case True
    with Elem.prems have "d = Elem j t a x new \<or> d \<in> set (iters new)" by simp
    then show ?thesis
    proof
      assume "d = Elem j t a x new"
      then have "attrib d = attrib (Elem j t a x cs) \<and> etext d = etext (Elem j t a x cs)"
        by simp
      with iter_self[of "Elem j t a x cs"] show ?thesis by blast
    next
      assume "d \<in> set (iters new)"
      then show ?thesis by blast
    qed
  next
    case False
    with Elem.prems have "d = Elem j t a x (map (set_children i new) cs)
        \<or> (\<exists>c \<in> set cs. d \<in> set (iter (set_children i new c)))"
      by auto
    then show ?thesis
    proof
      assume "d = Elem j t a x (map (set_children i new) cs)"
      then have "attrib d = attrib (Elem j t a x cs) \<and> etext d = etext (Elem j t a x cs)"
        by simp
      with iter_self[of "Elem j t a x cs"] show ?thesis by blast
    next
      assume "\<exists>c \<in> set cs. d \<in> set (iter (set_children i new c))"
      then obtain c where c: "c \<in> set cs" "d \<in> set (iter (set_children i new c))" by blast
      from Elem.IH[OF c] show ?thesis
      proof
        assume "\<exists>d0 \<in> set (iter c). attrib d = attrib d0 \<and> etext d = etext d0"
        then obtain d0 where d0: "d0 \<in> set (iter c)" "attrib d = attrib d0" "etext d = etext d0"
          by blast
        from d0(1) c(1) have "d0 \<in> set (iter (Elem j t a x cs))" by auto
        with d0(2,3) show ?thesis by blast
      next
        assume "d \<in> set (iters new)"
        then show ?thesis by blast
      qed
    qed
  qed
qed

lemma new_paragraph_own:
  assumes "d \<in> set (iter (new_paragraph n new_text p))"
  shows "(attrib d = [] \<and> (etext d = None \<or> etext d = Some new_text))
         \<or> d \<in> set (iters (children p))"
proof -
  define P where "P = (case find_elem W_pPr p of None \<Rightarrow> [] | Some p_pr \<Rightarrow> [p_pr])"
  define R where "R = (case find_elem W_r p of
               None \<Rightarrow> []
             | Some run \<Rightarrow> (case find_elem W_rPr run of None \<Rightarrow> [] | Some r_pr \<Rightarrow> [r_pr]))"
  have P: "set (iters P) \<subseteq> set (iters (children p))"
  proof (cases "find_elem W_pPr p")
    case None
    then show ?thesis by (simp add: P_def)
  next
    case (Some e)
    with find_elem_iter[OF Some] show ?thesis by (simp add: P_def)
  qed
  have R: "set (iters R) \<subseteq> set (iters (children p))"
  proof (cases "find_elem W_r p")
    case None
    then show ?thesis by (simp add: R_def)
  next
    case (Some run)
    show ?thesis
    proof (cases "find_elem W_rPr run")
      case None
      with Some show ?thesis by (simp add: R_def)
    next
      case rpr: (Some e)
      from find_elem_iter'[OF rpr] find_elem_iter[OF Some]
      have "set (iter e) \<subseteq> set (iters (children p))" by blast
      with Some rpr show ?thesis by (simp add: R_def)
    qed
  qed
  have np: "new_paragraph n new_text p =
      Elem n W_p [] None (P @ [Elem (n + 1) W_r [] None (R @ [Elem (n + 2) W_t [] (Some new_text) []])])"
    by (simp add: new_paragraph_def P_def R_def)
  from assms have "d = Elem n W_p [] None (P @ [Elem (n + 1) W_r [] None (R @ [Elem (n + 2) W_t [] (Some new_text) []])])
      \<or> d \<in> set (iters P)
      \<or> d = Elem (n + 1) W_r [] None (R @ [Elem (n + 2) W_t [] (Some new_text) []])
      \<or> d \<in> set (iters R)
      \<or> d = Elem (n + 2) W_t [] (Some new_text) []"
    unfolding np by (simp del: set_concat) blast
  with P R show ?thesis by (elim disjE) auto
qed

lemma updated_row_serializable:
  assumes ser: "serializable r" and legal: "list_all xml_char new_text"
  shows "serializable (updated_row n new_text r)"
proof (cases rule: updated_row_cases_all[of n new_text r])
  case same
  with ser show ?thesis by simp
next
  case (wf cell para remaining)
  let ?new = "remaining @ [new_paragraph n new_text para]"
  have cell: "set (iter cell) \<subseteq> set (iter r)" using find_elem_iter'[OF wf(1)] .
  have para: "set (iter para) \<subseteq> set (iter cell)" using find_elem_iter'[OF wf(2)] .
  show ?thesis
  proof (rule serializableI)
    fix d assume "d \<in> set (iter (updated_row n new_text r))"
    with wf(4) have "d \<in> set (iter (set_children (ident cell) ?new r))" by simp
    from set_children_own[OF this] show "xml_element d"
    proof
      assume "\<exists>d0 \<in> set (iter r). attrib d = attrib d0 \<and> etext d = etext d0"
      then obtain d0 where "d0 \<in> set (iter r)" "attrib d = attrib d0" "etext d = etext d0"
        by blast
      with serializableD[OF ser] xml_element_same show ?thesis by blast
    next
      assume "d \<in> set (iters ?new)"
      then have "d \<in> set (iters remaining) \<or> d \<in> set (iter (new_paragraph n new_text para))"
        by simp
      then show ?thesis
      proof
        assume "d \<in> set (iters remaining)"
        then obtain c where c: "c \<in> set remaining" "d \<in> set (iter c)" by auto
        with remove_child_subset[OF wf(3)] have "c \<in> set (children cell)" by blast
        from child_iter[OF this] c(2) cell have "d \<in> set (iter r)" by blast
        from serializableD[OF ser this] show ?thesis .
      next
        assume "d \<in> set (iter (new_paragraph n new_text para))"
        from new_paragraph_own[OF this] show ?thesis
        proof
          assume "attrib d = [] \<and> (etext d = None \<or> etext d = Some new_text)"
          with legal show ?thesis by (auto simp: xml_element_def)
        next
          assume "d \<in> set (iters (children para))"
          then have "d \<in> set (iter para)" by (simp add: iter_Cons[of para])
          with para cell have "d \<in> set (iter r)" by blast
          from serializableD[OF ser this] show ?thesis .
        qed
      qed
    qed
  qed
qed

lemma fresh_okD: "fresh_ok st \<Longrightarrow> e \<in> set (iters (trees st)) \<Longrightarrow> ident e < fresh st"
  unfolding fresh_ok_def list_all_iff by blast

lemma fresh_okI: "(\<And>e. e \<in> set (iters (trees st)) \<Longrightarrow> ident e < fresh st) \<Longrightarrow> fresh_ok st"
  unfolding fresh_ok_def list_all_iff by blast

lemma iters_set_children_bound:
  assumes "\<And>e. e \<in> set (iters ts) \<Longrightarrow> ident e < m"
    and "\<And>e. e \<in> set (iters new) \<Longrightarrow> ident e < m"
    and "e \<in> set (iters (map (set_children i new) ts))"
  shows "ident e < m"
proof -
  from assms(3) obtain t where t: "t \<in> set ts" "e \<in> set (iter (set_children i new t))"
    by auto
  from t(2) have "ident e \<in> ident ` set (iter (set_children i new t))" by (rule imageI)
  from idents_set_children[OF this] show ?thesis
  proof
    assume "ident e \<in> ident ` set (iter t)"
    then obtain d where "d \<in> set (iter t)" "ident d = ident e" by (metis imageE)
    with t(1) assms(1)[of d] show ?thesis by auto
  next
    assume "ident e \<in> ident ` set (iters new)"
    then obtain d where "d \<in> set (iters new)" "ident d = ident e" by (metis imageE)
    with assms(2)[of d] show ?thesis by auto
  qed
qed

lemma map_set_children_other:
  assumes "i \<notin> ident ` set (iters cs)"
  shows "map (set_children i new) cs = cs"
proof (rule map_idI)
  fix c assume "c \<in> set cs"
  with assms have "i \<notin> ident ` set (iter c)" unfolding in_idents_iters by blast
  then show "set_children i new c = c" by (rule set_children_other)
qed

lemma update_row_in_table:
  assumes tr: "trees st = Elem tid tg a x (done @ c # rest) # junk"
    and tid: "tid \<notin> ident ` set (iter c)"
    and d: "ident ` set (iter c) \<inter> ident ` set (iters done) = {}"
    and r: "ident ` set (iter c) \<inter> ident ` set (iters rest) = {}"
    and ok: "fresh_ok st"
    and pd: "paragraphs_direct c"
  shows "\<exists>junk'. update_row_content (ident c) new_text st =
            Inr \<lparr>trees = Elem tid tg a x (done @ updated_row (fresh st) new_text c # rest) # junk',
                 fresh = updated_fresh (fresh st) new_text c\<rparr>
          \<and> fresh_ok \<lparr>trees = Elem tid tg a x (done @ updated_row (fresh st) new_text c # rest) # junk',
                 fresh = updated_fresh (fresh st) new_text c\<rparr>"
proof -
  have cc: "ident c \<in> ident ` set (iter c)" using iter_self by (rule imageI)
  with tid d have "tid \<noteq> ident c" "ident c \<notin> ident ` set (iters done)" by blast+
  from deref_child[OF tr this] have dr: "deref st (ident c) = Some c" .
  have st: "st = \<lparr>trees = Elem tid tg a x (done @ c # rest) # junk, fresh = fresh st\<rparr>"
    using tr by (cases st) simp
  from pd show ?thesis
  proof (cases rule: updated_row_cases[where n = "fresh st" and new_text = new_text])
    case malformed
    from update_row_content_malformed[OF dr malformed(3)]
    have "update_row_content (ident c) new_text st = Inr st" .
    with malformed(1,2) st ok show ?thesis by (intro exI[of _ junk]) auto
  next
    case (wf cell para remaining)
    let ?new = "remaining @ [new_paragraph (fresh st) new_text para]"
    let ?g = "set_children (ident cell) ?new"
    have cell: "set (iter cell) \<subseteq> set (iter c)" using find_elem_iter'[OF wf(1)] .
    have para: "set (iter para) \<subseteq> set (iter cell)" using find_elem_iter'[OF wf(2)] .
    have ci: "ident cell \<in> ident ` set (iter c)" using cell iter_self[of cell] by blast
    with tid d r have ne: "tid \<noteq> ident cell" and nd: "ident cell \<notin> ident ` set (iters done)"
      and nr: "ident cell \<notin> ident ` set (iters rest)" by blast+
    have gT: "?g (Elem tid tg a x (done @ c # rest)) =
          Elem tid tg a x (done @ updated_row (fresh st) new_text c # rest)"
      using ne map_set_children_other[OF nd] map_set_children_other[OF nr] wf(4) by simp
    have u: "update_row_content (ident c) new_text st =
        Inr \<lparr>trees = Elem tid tg a x (done @ updated_row (fresh st) new_text c # rest)
                      # map ?g (junk @ [para]),
             fresh = fresh st + 3\<rparr>"
      using update_row_content_wf[OF dr wf(1,2,3), of new_text] gT
      by (simp add: assign_children_def tr)
    have inT: "e \<in> set (iters (trees st))" if "e \<in> set (iter c)" for e
      using that by (simp add: tr)
    have old: "ident e < fresh st + 3" if "e \<in> set (iters (trees st @ [para]))" for e
    proof -
      from that have "e \<in> set (iters (trees st)) \<or> e \<in> set (iter para)" by simp
      then have "e \<in> set (iters (trees st))" using inT para cell by blast
      from fresh_okD[OF ok this] show ?thesis by simp
    qed
    have new: "ident e < fresh st + 3" if "e \<in> set (iters ?new)" for e
    proof -
      from that have "e \<in> set (iters remaining)
          \<or> e \<in> set (iter (new_paragraph (fresh st) new_text para))" by simp
      then show ?thesis
      proof
        assume "e \<in> set (iters remaining)"
        then obtain k where k: "k \<in> set remaining" "e \<in> set (iter k)" by auto
        with remove_child_subset[OF wf(3)] have "k \<in> set (children cell)" by blast
        from child_iter[OF this] k(2) cell have "e \<in> set (iter c)" by blast
        from fresh_okD[OF ok inT[OF this]] show ?thesis by simp
      next
        assume "e \<in> set (iter (new_paragraph (fresh st) new_text para))"
        from new_paragraph_elems[OF this] show ?thesis
        proof (elim disjE)
          assume "e \<in> set (iters (children para))"
          then have "e \<in> set (iter para)" by (simp add: iter_Cons[of para])
          with para cell have "e \<in> set (iter c)" by blast
          from fresh_okD[OF ok inT[OF this]] show ?thesis by simp
        qed auto
      qed
    qed
    have "fresh_ok \<lparr>trees = map ?g (trees st @ [para]), fresh = fresh st + 3\<rparr>"
    proof (rule fresh_okI)
      fix e assume "e \<in> set (iters (trees \<lparr>trees = map ?g (trees st @ [para]), fresh = fresh st + 3\<rparr>))"
      then have "e \<in> set (iters (map ?g (trees st @ [para])))" by simp
      from iters_set_children_bound[OF old new this] show
        "ident e < fresh \<lparr>trees = map ?g (trees st @ [para]), fresh = fresh st + 3\<rparr>"
        by simp
    qed
    then have "fresh_ok \<lparr>trees = Elem tid tg a x (done @ updated_row (fresh st) new_text c # rest)
                      # map ?g (junk @ [para]),
             fresh = fresh st + 3\<rparr>"
      using gT by (simp add: tr)
    with u wf(5) show ?thesis by (intro exI[of _ "map ?g (junk @ [para])"]) simp
  qed
qed

lemma remove_child_middle:
  "i \<notin> ident ` set xs \<Longrightarrow> ident c = i \<Longrightarrow> remove_child i (xs @ c # ys) = Some (xs @ ys)"
  by (induction xs) auto

lemma roots_in_iters: "set cs \<subseteq> set (iters cs)"
  using iter_self by auto

lemma table_remove_in_table:
  assumes tr: "trees st = Elem tid tg a x (done @ c # rest) # junk"
    and tid: "tid \<noteq> ident c"
    and d: "ident c \<notin> ident ` set (iters done)"
    and ok: "fresh_ok st"
  shows "\<exists>junk'. table_remove tid (ident c) st =
            Inr \<lparr>trees = Elem tid tg a x (done @ rest) # junk', fresh = fresh st\<rparr>
          \<and> fresh_ok \<lparr>trees = Elem tid tg a x (done @ rest) # junk', fresh = fresh st\<rparr>"
proof -
  let ?T = "Elem tid tg a x (done @ c # rest)"
  let ?g = "set_children tid (done @ rest)"
  from deref_root[OF tr] have dt: "deref st tid = Some ?T" by simp
  from deref_child[OF tr tid d] have dc: "deref st (ident c) = Some c" .
  from d roots_in_iters[of "done"] have "ident c \<notin> ident ` set done" by blast
  from remove_child_middle[OF this refl]
  have rm: "remove_child (ident c) (children ?T) = Some (done @ rest)" by simp
  have u: "table_remove tid (ident c) st =
      Inr \<lparr>trees = Elem tid tg a x (done @ rest) # map ?g (junk @ [c]), fresh = fresh st\<rparr>"
    using dt dc rm by (simp add: table_remove_def assign_children_def tr)
  have old: "ident e < fresh st" if "e \<in> set (iters (trees st @ [c]))" for e
  proof -
    from that have "e \<in> set (iters (trees st)) \<or> e \<in> set (iter c)" by simp
    then have "e \<in> set (iters (trees st))" by (auto simp: tr)
    from fresh_okD[OF ok this] show ?thesis .
  qed
  have new: "ident e < fresh st" if "e \<in> set (iters (done @ rest))" for e
  proof -
    from that have "e \<in> set (iters (trees st))" by (auto simp: tr)
    from fresh_okD[OF ok this] show ?thesis .
  qed
  have "fresh_ok \<lparr>trees = map ?g (trees st @ [c]), fresh = fresh st\<rparr>"
  proof (rule fresh_okI)
    fix e assume "e \<in> set (iters (trees \<lparr>trees = map ?g (trees st @ [c]), fresh = fresh st\<rparr>))"
    then have "e \<in> set (iters (map ?g (trees st @ [c])))" by simp
    from iters_set_children_bound[OF old new this]
    show "ident e < fresh \<lparr>trees = map ?g (trees st @ [c]), fresh = fresh st\<rparr>" by simp
  qed
  then have "fresh_ok \<lparr>trees = Elem tid tg a x (done @ rest) # map ?g (junk @ [c]),
      fresh = fresh st\<rparr>"
    by (simp add: tr)
  with u show ?thesis by (intro exI[of _ "map ?g (junk @ [c])"]) simp
qed

lemma updated_row_idents_disjoint:
  assumes "ident ` set (iter c) \<inter> X = {}" and "\<forall>y \<in> X. y < n"
  shows "ident ` set (iter (updated_row n new_text c)) \<inter> X = {}"
proof -
  have "y \<notin> X" if "y \<in> ident ` set (iter (updated_row n new_text c))" for y
  proof -
    from that obtain d where "d \<in> set (iter (updated_row n new_text c))" "ident d = y"
      by (metis imageE)
    from updated_row_elems[OF this(1)] this(2) assms show ?thesis by auto
  qed
  then show ?thesis by blast
qed

lemma update_or_remove_rows_flat:
  assumes "trees st = Elem tid tg a x (done @ todo) # junk"
    and "fresh_ok st"
    and "tid \<notin> ident ` set (iters todo)"
    and "ident ` set (iters done) \<inter> ident ` set (iters todo) = {}"
    and "distinct (map ident (iters todo))"
    and "\<forall>r \<in> set todo. tag r = W_tr \<longrightarrow> paragraphs_direct r"
    and "\<forall>b \<in> set bullets. bullet_text b \<noteq> None"
  shows "\<exists>junk'.
      update_or_remove_rows tid bullets i (map ident (filter (\<lambda>c. tag c = W_tr) todo)) st =
        Inr \<lparr>trees = Elem tid tg a x (done @ fst (rewritten (fresh st) i bullets todo)) # junk',
             fresh = snd (rewritten (fresh st) i bullets todo)\<rparr>
      \<and> fresh_ok
          \<lparr>trees = Elem tid tg a x (done @ fst (rewritten (fresh st) i bullets todo)) # junk',
           fresh = snd (rewritten (fresh st) i bullets todo)\<rparr>"
  using assms
proof (induction todo arbitrary: "done" st i junk)
  case Nil
  have "st = \<lparr>trees = Elem tid tg a x done # junk, fresh = fresh st\<rparr>"
    using Nil.prems(1) by (cases st) simp
  with Nil.prems(2) show ?case by (intro exI[of _ junk]) auto
next
  case (Cons c todo)
  note dist = distinct_iters_Cons[OF Cons.prems(5)]
  from Cons.prems(3) have tid_c: "tid \<notin> ident ` set (iter c)"
    and tid_todo: "tid \<notin> ident ` set (iters todo)" by auto
  from Cons.prems(4) have done_c: "ident ` set (iter c) \<inter> ident ` set (iters done) = {}"
    and done_todo: "ident ` set (iters done) \<inter> ident ` set (iters todo) = {}" by auto
  have below: "y < fresh st" if "y \<in> ident ` set (iters todo)" for y
  proof -
    from that obtain e where e: "e \<in> set (iters todo)" "ident e = y" by (metis imageE)
    then have "e \<in> set (iters (trees st))" by (auto simp: Cons.prems(1))
    from fresh_okD[OF Cons.prems(2) this] e(2) show ?thesis by simp
  qed
  show ?case
  proof (cases "tag c = W_tr")
    case False
    have 1: "trees st = Elem tid tg a x ((done @ [c]) @ todo) # junk"
      using Cons.prems(1) by simp
    have 4: "ident ` set (iters (done @ [c])) \<inter> ident ` set (iters todo) = {}"
      using done_todo dist(3) by (simp add: image_Un Int_Un_distrib2)
    from Cons.IH[OF 1 Cons.prems(2) tid_todo 4 dist(2) _ Cons.prems(7), of i] Cons.prems(6)
    obtain junk' where
      "update_or_remove_rows tid bullets i (map ident (filter (\<lambda>c. tag c = W_tr) todo)) st =
        Inr \<lparr>trees = Elem tid tg a x ((done @ [c]) @ fst (rewritten (fresh st) i bullets todo)) # junk',
             fresh = snd (rewritten (fresh st) i bullets todo)\<rparr>
      \<and> fresh_ok
          \<lparr>trees = Elem tid tg a x ((done @ [c]) @ fst (rewritten (fresh st) i bullets todo)) # junk',
           fresh = snd (rewritten (fresh st) i bullets todo)\<rparr>"
      by auto
    with False show ?thesis
      by (intro exI[of _ junk']) (simp add: split_beta)
  next
    case True
    show ?thesis
    proof (cases "i < length bullets")
      case inb: True
      from inb have "bullets ! i \<in> set bullets" by simp
      with Cons.prems(7) have "bullet_text (bullets ! i) \<noteq> None" by blast
      then obtain s where btxt: "bullet_text (bullets ! i) = Some s" by blast
      then have g: "get_str (bullet_text (bullets ! i)) = s" by (simp add: get_str_def)
      from True Cons.prems(6) have pd: "paragraphs_direct c" by simp
      from dist(3) have c_todo: "ident ` set (iter c) \<inter> ident ` set (iters todo) = {}" .
      from update_row_in_table[OF Cons.prems(1) tid_c done_c c_todo Cons.prems(2) pd, of s]
      obtain junk1 where
        u: "update_row_content (ident c) s st =
            Inr \<lparr>trees = Elem tid tg a x (done @ updated_row (fresh st) s c # todo) # junk1,
                 fresh = updated_fresh (fresh st) s c\<rparr>"
        and ok1: "fresh_ok \<lparr>trees = Elem tid tg a x (done @ updated_row (fresh st) s c # todo) # junk1,
                 fresh = updated_fresh (fresh st) s c\<rparr>"
        by blast
      let ?st1 = "\<lparr>trees = Elem tid tg a x (done @ updated_row (fresh st) s c # todo) # junk1,
                 fresh = updated_fresh (fresh st) s c\<rparr>"
      have 1: "trees ?st1 = Elem tid tg a x ((done @ [updated_row (fresh st) s c]) @ todo) # junk1"
        by simp
      have "ident ` set (iter (updated_row (fresh st) s c)) \<inter> ident ` set (iters todo) = {}"
        using updated_row_idents_disjoint[OF c_todo] below by blast
      with done_todo have 4: "ident ` set (iters (done @ [updated_row (fresh st) s c]))
          \<inter> ident ` set (iters todo) = {}"
        by (simp add: image_Un Int_Un_distrib2)
      from Cons.IH[OF 1 ok1 tid_todo 4 dist(2) _ Cons.prems(7), of "i + 1"] Cons.prems(6)
      obtain junk' where
        "update_or_remove_rows tid bullets (i + 1) (map ident (filter (\<lambda>c. tag c = W_tr) todo)) ?st1 =
          Inr \<lparr>trees = Elem tid tg a x ((done @ [updated_row (fresh st) s c])
                   @ fst (rewritten (fresh ?st1) (i + 1) bullets todo)) # junk',
               fresh = snd (rewritten (fresh ?st1) (i + 1) bullets todo)\<rparr>
        \<and> fresh_ok
            \<lparr>trees = Elem tid tg a x ((done @ [updated_row (fresh st) s c])
                   @ fst (rewritten (fresh ?st1) (i + 1) bullets todo)) # junk',
             fresh = snd (rewritten (fresh ?st1) (i + 1) bullets todo)\<rparr>"
        by auto
      with True inb btxt u show ?thesis
        by (intro exI[of _ junk']) (simp add: split_beta get_str_def)
    next
      case outb: False
      have cc: "ident c \<in> ident ` set (iter c)" using iter_self by (rule imageI)
      with tid_c done_c have "tid \<noteq> ident c" "ident c \<notin> ident ` set (iters done)" by blast+
      from table_remove_in_table[OF Cons.prems(1) this Cons.prems(2)]
      obtain junk1 where
        u: "table_remove tid (ident c) st =
            Inr \<lparr>trees = Elem tid tg a x (done @ todo) # junk1, fresh = fresh st\<rparr>"
        and ok1: "fresh_ok \<lparr>trees = Elem tid tg a x (done @ todo) # junk1, fresh = fresh st\<rparr>"
        by blast
      let ?st1 = "\<lparr>trees = Elem tid tg a x (done @ todo) # junk1, fresh = fresh st\<rparr>"
      have 1: "trees ?st1 = Elem tid tg a x (done @ todo) # junk1" by simp
      from Cons.IH[OF 1 ok1 tid_todo done_todo dist(2) _ Cons.prems(7), of "i + 1"] Cons.prems(6)
      obtain junk' where
        "update_or_remove_rows tid bullets (i + 1) (map ident (filter (\<lambda>c. tag c = W_tr) todo)) ?st1 =
          Inr \<lparr>trees = Elem tid tg a x (done @ fst (rewritten (fresh ?st1) (i + 1) bullets todo)) # junk',
               fresh = snd (rewritten (fresh ?st1) (i + 1) bullets todo)\<rparr>
        \<and> fresh_ok
            \<lparr>trees = Elem tid tg a x (done @ fst (rewritten (fresh ?st1) (i + 1) bullets todo)) # junk',
             fresh = snd (rewritten (fresh ?st1) (i + 1) bullets todo)\<rparr>"
        by auto
      with True outb u show ?thesis
        by (intro exI[of _ junk']) (simp add: split_beta)
    qed
  qed
qed

lemma rewritten_no_rows:
  "filter is_row cs = [] \<Longrightarrow> rewritten n i bullets cs = (cs, n)"
  by (induction cs) (auto split: if_splits)

lemma rewritten_fresh: "n \<le> snd (rewritten n i bullets cs)"
proof (induction cs arbitrary: n i)
  case Nil
  show ?case by simp
next
  case (Cons c cs)
  show ?case
    using Cons[of n i] Cons[of n "i + 1"]
      Cons[of "updated_fresh n (get_str (bullet_text (bullets ! i))) c" "i + 1"]
      updated_fresh_bounds(1)[of n "get_str (bullet_text (bullets ! i))" c]
    by (auto simp: split_beta)
qed

lemma rewritten_rows:
  "list_all2 (\<lambda>r' (r, b). \<exists>k. r' = updated_row k (get_str (bullet_text b)) r)
     (filter is_row (fst (rewritten n i bullets cs)))
     (zip (filter is_row cs) (drop i bullets))"
proof (induction cs arbitrary: n i)
  case Nil
  show ?case by simp
next
  case (Cons c cs)
  show ?case
  proof (cases "is_row c")
    case False
    with Cons[of n i] show ?thesis by (simp add: split_beta)
  next
    case True
    show ?thesis
    proof (cases "i < length bullets")
      case inb: True
      then have d: "drop i bullets = bullets ! i # drop (Suc i) bullets"
        by (simp add: Cons_nth_drop_Suc)
      from Cons[of "updated_fresh n (get_str (bullet_text (bullets ! i))) c" "i + 1"] True inb
      show ?thesis by (auto simp: split_beta d)
    next
      case False
      with Cons[of n "i + 1"] True show ?thesis by simp
    qed
  qed
qed

lemma rewritten_flat:
  "\<forall>c \<in> set cs. findall W_tr c = [] \<Longrightarrow>
   \<forall>c \<in> set (fst (rewritten n i bullets cs)). findall W_tr c = []"
proof (induction cs arbitrary: n i)
  case Nil
  show ?case by simp
next
  case (Cons c cs)
  from Cons.prems have c: "findall W_tr c = []" and cs: "\<forall>c \<in> set cs. findall W_tr c = []"
    by auto
  show ?case
    using Cons.IH[OF cs, of n i] Cons.IH[OF cs, of n "i + 1"]
      Cons.IH[OF cs, of "updated_fresh n (get_str (bullet_text (bullets ! i))) c" "i + 1"]
      c updated_row_flat[OF c]
    by (auto simp: split_beta)
qed

lemma rewritten_idents:
  "y \<in> ident ` set (iters (fst (rewritten n i bullets cs))) \<Longrightarrow>
   y \<in> ident ` set (iters cs) \<or> n \<le> y"
proof (induction cs arbitrary: n i)
  case Nil
  then show ?case by simp
next
  case (Cons c cs)
  let ?t = "get_str (bullet_text (bullets ! i))"
  have ic: "ident ` set (iters (c # cs)) = ident ` set (iter c) \<union> ident ` set (iters cs)"
    by (simp add: image_Un)
  show ?case
  proof (cases "is_row c")
    case False
    with Cons.prems have "y \<in> ident ` set (iter c)
        \<or> y \<in> ident ` set (iters (fst (rewritten n i bullets cs)))"
      by (simp add: split_beta image_Un)
    with Cons.IH[of n i] show ?thesis unfolding ic by blast
  next
    case True
    show ?thesis
    proof (cases "i < length bullets")
      case inb: True
      with True Cons.prems have "y \<in> ident ` set (iter (updated_row n ?t c))
        \<or> y \<in> ident ` set (iters (fst (rewritten (updated_fresh n ?t c) (i + 1) bullets cs)))"
        by (simp add: split_beta image_Un)
      then show ?thesis
      proof
        assume "y \<in> ident ` set (iter (updated_row n ?t c))"
        then obtain d where "d \<in> set (iter (updated_row n ?t c))" "ident d = y"
          by (metis imageE)
        from updated_row_elems[OF this(1)] this(2) show ?thesis unfolding ic by auto
      next
        assume "y \<in> ident ` set (iters (fst (rewritten (updated_fresh n ?t c) (i + 1) bullets cs)))"
        from Cons.IH[OF this] updated_fresh_bounds(1)[of n ?t c] show ?thesis
          unfolding ic by auto
      qed
    next
      case False
      with True Cons.prems have "y \<in> ident ` set (iters (fst (rewritten n (i + 1) bullets cs)))"
        by simp
      from Cons.IH[OF this] show ?thesis unfolding ic by blast
    qed
  qed
qed

lemma rewritten_last_row:
  assumes "filter is_row cs \<noteq> []"
    and "length (filter is_row cs) \<le> length bullets - i"
    and "distinct (map ident (iters cs))"
    and "\<forall>y \<in> ident ` set (iters cs). y < n"
  shows "\<exists>xs k ys. fst (rewritten n i bullets cs) =
            xs @ updated_row k (get_str (bullet_text (bullets ! (i + length (filter is_row cs) - 1))))
                   (last (filter is_row cs)) # ys
          \<and> ident (last (filter is_row cs)) \<notin> ident ` set (iters xs)
          \<and> filter is_row ys = []
          \<and> last (filter is_row cs) \<in> set cs"
  using assms
proof (induction cs arbitrary: n i)
  case Nil
  then show ?case by simp
next
  case (Cons c cs)
  note dist = distinct_iters_Cons[OF Cons.prems(3)]
  from Cons.prems(4) have below: "\<forall>y \<in> ident ` set (iters cs). y < n" by auto
  show ?case
  proof (cases "is_row c")
    case False
    with Cons.prems(1,2) have 1: "filter is_row cs \<noteq> []"
      and 2: "length (filter is_row cs) \<le> length bullets - i" by auto
    from Cons.IH[OF 1 2 dist(2) below] obtain xs k ys where
      r: "fst (rewritten n i bullets cs) =
            xs @ updated_row k (get_str (bullet_text (bullets ! (i + length (filter is_row cs) - 1))))
                   (last (filter is_row cs)) # ys"
      and x: "ident (last (filter is_row cs)) \<notin> ident ` set (iters xs)"
      and y: "filter is_row ys = []" and m: "last (filter is_row cs) \<in> set cs"
      by blast
    from m have "ident (last (filter is_row cs)) \<in> ident ` set (iters cs)"
      using iter_self by (metis (no_types, lifting) imageI roots_in_iters subsetD)
    with dist(3) have "ident (last (filter is_row cs)) \<notin> ident ` set (iter c)" by blast
    with x have x': "ident (last (filter is_row cs)) \<notin> ident ` set (iters (c # xs))"
      by (simp add: image_Un)
    from False r x' y m show ?thesis
      by (intro exI[of _ "c # xs"] exI[of _ k] exI[of _ ys]) (simp add: split_beta)
  next
    case True
    from True Cons.prems(2) have inb: "i < length bullets" by simp
    let ?t = "get_str (bullet_text (bullets ! i))"
    show ?thesis
    proof (cases "filter is_row cs = []")
      case e: True
      from rewritten_no_rows[OF e] True inb e show ?thesis
        by (intro exI[of _ "[]"] exI[of _ n] exI[of _ cs]) simp
    next
      case ne: False
      from True Cons.prems(2) have 2: "length (filter is_row cs) \<le> length bullets - (i + 1)"
        by simp
      have below': "\<forall>y \<in> ident ` set (iters cs). y < updated_fresh n ?t c"
        using below updated_fresh_bounds(1)[of n ?t c] by fastforce
      from Cons.IH[OF ne 2 dist(2) below'] obtain xs k ys where
        r: "fst (rewritten (updated_fresh n ?t c) (i + 1) bullets cs) =
            xs @ updated_row k (get_str (bullet_text (bullets ! (i + 1 + length (filter is_row cs) - 1))))
                   (last (filter is_row cs)) # ys"
        and x: "ident (last (filter is_row cs)) \<notin> ident ` set (iters xs)"
        and y: "filter is_row ys = []" and m: "last (filter is_row cs) \<in> set cs"
        by blast
      from m have in_cs: "ident (last (filter is_row cs)) \<in> ident ` set (iters cs)"
        using iter_self by (metis (no_types, lifting) imageI roots_in_iters subsetD)
      have "ident ` set (iter (updated_row n ?t c)) \<inter> ident ` set (iters cs) = {}"
        using updated_row_idents_disjoint[OF dist(3)] below by blast
      with in_cs have "ident (last (filter is_row cs)) \<notin> ident ` set (iter (updated_row n ?t c))"
        by blast
      with x have x': "ident (last (filter is_row cs))
          \<notin> ident ` set (iters (updated_row n ?t c # xs))"
        by (simp add: image_Un)
      from True inb ne r x' y m show ?thesis
        by (intro exI[of _ "updated_row n ?t c # xs"] exI[of _ k] exI[of _ ys])
          (simp add: split_beta)
    qed
  qed
qed

lemma parsed_idents:
  assumes "parsed n e = (e', n')"
  shows "n < n'" "d \<in> set (iter e') \<Longrightarrow> n \<le> ident d \<and> ident d < n'" "ident e' = n"
    "tag e' = tag e"
  using parsed_bounds(1)[of n e] parsed_root[of n e] assms by auto

lemma update_row_detached:
  assumes tr: "trees st = ts @ [tpl]"
    and low: "\<forall>e \<in> set (iters ts). ident e < ident tpl"
    and up: "\<forall>e \<in> set (iter tpl). ident tpl \<le> ident e"
    and ok: "fresh_ok st"
    and pd: "paragraphs_direct tpl"
  shows "\<exists>extra. update_row_content (ident tpl) new_text st =
            Inr \<lparr>trees = ts @ updated_row (fresh st) new_text tpl # extra,
                 fresh = updated_fresh (fresh st) new_text tpl\<rparr>
          \<and> fresh_ok \<lparr>trees = ts @ updated_row (fresh st) new_text tpl # extra,
                 fresh = updated_fresh (fresh st) new_text tpl\<rparr>"
proof -
  have "\<forall>e \<in> set (iters ts). ident e \<noteq> ident tpl" using low by fastforce
  with deref_after[of st ts tpl "[]"] tr have dr: "deref st (ident tpl) = Some tpl" by simp
  have st: "st = \<lparr>trees = ts @ [tpl], fresh = fresh st\<rparr>"
    using tr by (cases st) simp
  from pd show ?thesis
  proof (cases rule: updated_row_cases[where n = "fresh st" and new_text = new_text])
    case malformed
    from update_row_content_malformed[OF dr malformed(3)]
    have "update_row_content (ident tpl) new_text st = Inr st" .
    with malformed(1,2) st ok show ?thesis by (intro exI[of _ "[]"]) auto
  next
    case (wf cell para remaining)
    let ?new = "remaining @ [new_paragraph (fresh st) new_text para]"
    let ?g = "set_children (ident cell) ?new"
    have cell: "set (iter cell) \<subseteq> set (iter tpl)" using find_elem_iter'[OF wf(1)] .
    have para: "set (iter para) \<subseteq> set (iter cell)" using find_elem_iter'[OF wf(2)] .
    from cell iter_self[of cell] up have "ident tpl \<le> ident cell" by blast
    with low have "ident cell \<notin> ident ` set (iters ts)" by fastforce
    from map_set_children_other[OF this] have gts: "map ?g ts = ts" .
    have u: "update_row_content (ident tpl) new_text st =
        Inr \<lparr>trees = ts @ updated_row (fresh st) new_text tpl # [?g para],
             fresh = fresh st + 3\<rparr>"
      using update_row_content_wf[OF dr wf(1,2,3), of new_text] gts wf(4)
      by (simp add: assign_children_def tr)
    have inT: "e \<in> set (iters (trees st))" if "e \<in> set (iter tpl)" for e
      using that by (simp add: tr)
    have old: "ident e < fresh st + 3" if "e \<in> set (iters (trees st @ [para]))" for e
    proof -
      from that have "e \<in> set (iters (trees st)) \<or> e \<in> set (iter para)" by simp
      then have "e \<in> set (iters (trees st))" using inT para cell by blast
      from fresh_okD[OF ok this] show ?thesis by simp
    qed
    have new: "ident e < fresh st + 3" if "e \<in> set (iters ?new)" for e
    proof -
      from that have "e \<in> set (iters remaining)
          \<or> e \<in> set (iter (new_paragraph (fresh st) new_text para))" by simp
      then show ?thesis
      proof
        assume "e \<in> set (iters remaining)"
        then obtain k where k: "k \<in> set remaining" "e \<in> set (iter k)" by auto
        with remove_child_subset[OF wf(3)] have "k \<in> set (children cell)" by blast
        from child_iter[OF this] k(2) cell have "e \<in> set (iter tpl)" by blast
        from fresh_okD[OF ok inT[OF this]] show ?thesis by simp
      next
        assume "e \<in> set (iter (new_paragraph (fresh st) new_text para))"
        from new_paragraph_elems[OF this] show ?thesis
        proof (elim disjE)
          assume "e \<in> set (iters (children para))"
          then have "e \<in> set (iter para)" by (simp add: iter_Cons[of para])
          with para cell have "e \<in> set (iter tpl)" by blast
          from fresh_okD[OF ok inT[OF this]] show ?thesis by simp
        qed auto
      qed
    qed
    have "fresh_ok \<lparr>trees = map ?g (trees st @ [para]), fresh = fresh st + 3\<rparr>"
    proof (rule fresh_okI)
      fix e assume "e \<in> set (iters (trees \<lparr>trees = map ?g (trees st @ [para]), fresh = fresh st + 3\<rparr>))"
      then have "e \<in> set (iters (map ?g (trees st @ [para])))" by simp
      from iters_set_children_bound[OF old new this] show
        "ident e < fresh \<lparr>trees = map ?g (trees st @ [para]), fresh = fresh st + 3\<rparr>"
        by simp
    qed
    then have "fresh_ok \<lparr>trees = ts @ updated_row (fresh st) new_text tpl # [?g para],
             fresh = fresh st + 3\<rparr>"
      using gts wf(4) by (simp add: tr)
    with u wf(5) show ?thesis by (intro exI[of _ "[?g para]"]) simp
  qed
qed

lemma table_append_in_table:
  assumes tr: "trees st = Elem tid tg a x cs # junk @ r # extra"
    and low: "\<forall>e \<in> set (iters (Elem tid tg a x cs # junk)). ident e < ident r"
    and ok: "fresh_ok st"
  shows "\<exists>junk'. table_append tid (ident r) st =
            Inr \<lparr>trees = Elem tid tg a x (cs @ [r]) # junk', fresh = fresh st\<rparr>
          \<and> fresh_ok \<lparr>trees = Elem tid tg a x (cs @ [r]) # junk', fresh = fresh st\<rparr>"
proof -
  let ?T = "Elem tid tg a x cs"
  let ?g = "set_children tid (cs @ [r])"
  from deref_root[OF tr] have dt: "deref st tid = Some ?T" by simp
  have "\<forall>e \<in> set (iters (?T # junk)). ident e \<noteq> ident r" using low by fastforce
  with deref_after[of st "?T # junk" r extra] tr have dr: "deref st (ident r) = Some r" by simp
  have u: "table_append tid (ident r) st =
      Inr \<lparr>trees = Elem tid tg a x (cs @ [r]) # map ?g (junk @ r # extra), fresh = fresh st\<rparr>"
    using dt dr by (simp add: table_append_def assign_children_def tr)
  have old: "ident e < fresh st" if "e \<in> set (iters (trees st))" for e
    using fresh_okD[OF ok that] .
  have new: "ident e < fresh st" if "e \<in> set (iters (cs @ [r]))" for e
  proof -
    from that have "e \<in> set (iters (trees st))" by (auto simp: tr)
    from fresh_okD[OF ok this] show ?thesis .
  qed
  have "fresh_ok \<lparr>trees = map ?g (trees st), fresh = fresh st\<rparr>"
  proof (rule fresh_okI)
    fix e assume "e \<in> set (iters (trees \<lparr>trees = map ?g (trees st), fresh = fresh st\<rparr>))"
    then have "e \<in> set (iters (map ?g (trees st)))" by simp
    from iters_set_children_bound[OF old new this]
    show "ident e < fresh \<lparr>trees = map ?g (trees st), fresh = fresh st\<rparr>" by simp
  qed
  then have "fresh_ok \<lparr>trees = Elem tid tg a x (cs @ [r]) # map ?g (junk @ r # extra),
      fresh = fresh st\<rparr>"
    by (simp add: tr)
  with u show ?thesis by (intro exI[of _ "map ?g (junk @ r # extra)"]) simp
qed

lemma add_rows_flat:
  assumes "trees st = Elem tid tg a x (xs @ cL # ys) # junk"
    and "fresh_ok st"
    and "tid \<noteq> ident cL"
    and "ident cL \<notin> ident ` set (iters xs)"
    and "paragraphs_direct cL"
    and "bullet_rows \<noteq> []" and "last bullet_rows = ident cL"
    and "\<forall>i \<in> set indices. i < length bullets"
    and "\<forall>b \<in> set bullets. bullet_text b \<noteq> None"
    and "serializable cL"
  shows "\<exists>junk' n' new.
      add_rows tid bullets bullet_rows indices st =
        Inr \<lparr>trees = Elem tid tg a x (xs @ cL # ys @ new) # junk', fresh = n'\<rparr>
      \<and> list_all2 (\<lambda>r' i. \<exists>k k'. r' = updated_row k' (get_str (bullet_text (bullets ! i)))
                                        (fst (parsed k cL)))
           new indices"
  using assms(1,2,8)
proof (induction indices arbitrary: st ys junk)
  case Nil
  have "st = \<lparr>trees = Elem tid tg a x (xs @ cL # ys @ []) # junk, fresh = fresh st\<rparr>"
    using Nil.prems(1) by (cases st) simp
  then show ?case
    by (intro exI[of _ junk] exI[of _ "fresh st"] exI[of _ "[]"]) simp
next
  case (Cons i indices)
  note tr = Cons.prems(1) and ok = Cons.prems(2)
  from deref_child[OF tr assms(3,4)] assms(7)
  have dl: "deref st (last bullet_rows) = Some cL" by simp
  obtain tpl n1 where pl: "parsed (fresh st) cL = (tpl, n1)" by (cases "parsed (fresh st) cL")
  with clone_Inr[OF assms(10), of "fresh st"] have cl: "clone (fresh st) cL = Inr (tpl, n1)"
    by simp
  note ci = parsed_idents[OF pl]
  from Cons.prems(3) have inb: "i < length bullets" by simp
  then have "bullets ! i \<in> set bullets" by simp
  with assms(9) have "bullet_text (bullets ! i) \<noteq> None" by blast
  then obtain s where btxt: "bullet_text (bullets ! i) = Some s" by blast
  let ?sta = "\<lparr>trees = trees st @ [tpl], fresh = n1\<rparr>"
  have sta: "st\<lparr>trees := trees st @ [tpl], fresh := n1\<rparr> = ?sta" by (cases st) simp
  have low: "\<forall>e \<in> set (iters (trees st)). ident e < ident tpl"
    using fresh_okD[OF ok] ci(3) by simp
  have up: "\<forall>e \<in> set (iter tpl). ident tpl \<le> ident e" using ci(2,3) by simp
  have oka: "fresh_ok ?sta"
  proof (rule fresh_okI)
    fix e assume "e \<in> set (iters (trees ?sta))"
    then have "e \<in> set (iters (trees st)) \<or> e \<in> set (iter tpl)" by simp
    then show "ident e < fresh ?sta"
      using fresh_okD[OF ok] ci(1,2) by fastforce
  qed
  have pdt: "paragraphs_direct tpl" using parsed_paragraphs_direct[OF assms(5), of "fresh st"] pl
    by simp
  from update_row_detached[of ?sta "trees st" tpl, OF _ low up oka pdt, of s]
  obtain extra where
    u: "update_row_content (ident tpl) s ?sta =
          Inr \<lparr>trees = trees st @ updated_row n1 s tpl # extra, fresh = updated_fresh n1 s tpl\<rparr>"
    and okb: "fresh_ok \<lparr>trees = trees st @ updated_row n1 s tpl # extra,
                 fresh = updated_fresh n1 s tpl\<rparr>"
    by auto
  let ?tpl' = "updated_row n1 s tpl"
  let ?stb = "\<lparr>trees = trees st @ ?tpl' # extra, fresh = updated_fresh n1 s tpl\<rparr>"
  have trb: "trees ?stb = Elem tid tg a x (xs @ cL # ys) # junk @ ?tpl' # extra"
    by (simp add: tr)
  have lowb: "\<forall>e \<in> set (iters (Elem tid tg a x (xs @ cL # ys) # junk)). ident e < ident ?tpl'"
    using low by (simp add: tr)
  from table_append_in_table[OF trb lowb okb]
  obtain junk1 where
    ap: "table_append tid (ident ?tpl') ?stb =
          Inr \<lparr>trees = Elem tid tg a x ((xs @ cL # ys) @ [?tpl']) # junk1, fresh = fresh ?stb\<rparr>"
    and okc: "fresh_ok \<lparr>trees = Elem tid tg a x ((xs @ cL # ys) @ [?tpl']) # junk1,
                 fresh = fresh ?stb\<rparr>"
    by blast
  let ?stc = "\<lparr>trees = Elem tid tg a x ((xs @ cL # ys) @ [?tpl']) # junk1, fresh = fresh ?stb\<rparr>"
  have trc: "trees ?stc = Elem tid tg a x (xs @ cL # (ys @ [?tpl'])) # junk1" by simp
  from Cons.prems(3) have idx: "\<forall>i \<in> set indices. i < length bullets" by simp
  from Cons.IH[OF trc okc idx] obtain junk' n' new where
    r: "add_rows tid bullets bullet_rows indices ?stc =
        Inr \<lparr>trees = Elem tid tg a x (xs @ cL # (ys @ [?tpl']) @ new) # junk', fresh = n'\<rparr>"
    and l: "list_all2 (\<lambda>r' i. \<exists>k k'. r' = updated_row k' (get_str (bullet_text (bullets ! i)))
                                        (fst (parsed k cL)))
           new indices"
    by blast
  have "add_rows tid bullets bullet_rows (i # indices) st =
          add_rows tid bullets bullet_rows indices ?stc"
    using assms(6) dl cl btxt u ap ci(3) by (simp add: sta)
  with r have "add_rows tid bullets bullet_rows (i # indices) st =
        Inr \<lparr>trees = Elem tid tg a x (xs @ cL # ys @ (?tpl' # new)) # junk', fresh = n'\<rparr>"
    by simp
  moreover have "\<exists>k k'. ?tpl' = updated_row k' (get_str (bullet_text (bullets ! i)))
                                        (fst (parsed k cL))"
    using pl btxt by (intro exI[of _ "fresh st"] exI[of _ n1]) (simp add: get_str_def)
  ultimately show ?case using l
    by (intro exI[of _ junk'] exI[of _ n'] exI[of _ "?tpl' # new"]) simp
qed

lemma findall_children:
  "\<forall>c \<in> set cs. findall t c = [] \<Longrightarrow>
   findall t (Elem i tg a x cs) = filter (\<lambda>c. tag c = t) cs"
proof -
  assume flat: "\<forall>c \<in> set cs. findall t c = []"
  have "filter (\<lambda>c. tag c = t) (iter c) = (if tag c = t then [c] else [])" if "c \<in> set cs" for c
    using flat that by (simp add: iter_Cons[of c] findall_def)
  then have "filter (\<lambda>c. tag c = t) (iters ds) = filter (\<lambda>c. tag c = t) ds"
    if "set ds \<subseteq> set cs" for ds
    using that by (induction ds) auto
  then show ?thesis by (simp add: findall_def)
qed

lemma split_filter:
  "\<exists>pre todo. cs = pre @ todo \<and> filter P pre = take k (filter P cs)
     \<and> filter P todo = drop k (filter P cs)"
proof (induction cs arbitrary: k)
  case Nil
  show ?case by simp
next
  case (Cons c cs)
  show ?case
  proof (cases k)
    case 0
    have "c # cs = [] @ (c # cs)" "filter P [] = take k (filter P (c # cs))"
      "filter P (c # cs) = drop k (filter P (c # cs))"
      by (simp_all add: 0)
    then show ?thesis by blast
  next
    case (Suc k')
    show ?thesis
    proof (cases "P c")
      case True
      from Cons[of k'] obtain pre todo where
        a: "cs = pre @ todo" and b: "filter P pre = take k' (filter P cs)"
        and d: "filter P todo = drop k' (filter P cs)" by blast
      from a have "c # cs = (c # pre) @ todo" by simp
      moreover from b True Suc have "filter P (c # pre) = take k (filter P (c # cs))" by simp
      moreover from d True Suc have "filter P todo = drop k (filter P (c # cs))" by simp
      ultimately show ?thesis by blast
    next
      case False
      from Cons[of k] obtain pre todo where
        a: "cs = pre @ todo" and b: "filter P pre = take k (filter P cs)"
        and d: "filter P todo = drop k (filter P cs)" by blast
      from a have "c # cs = (c # pre) @ todo" by simp
      moreover from b False have "filter P (c # pre) = take k (filter P (c # cs))" by simp
      moreover from d False have "filter P todo = drop k (filter P (c # cs))" by simp
      ultimately show ?thesis by blast
    qed
  qed
qed

lemma start_row_index_Inr:
  "start_row_index rs sec = Inr start \<Longrightarrow> rs \<noteq> [] \<and> start \<le> 1"
  by (auto simp: start_row_index_def Let_def split: list.splits if_splits)

lemma drop_nths: "map ((!) xs) [k..<length xs] = drop k xs"
proof -
  have "drop k xs = drop k (map ((!) xs) [0..<length xs])" by (simp add: map_nth)
  also have "\<dots> = map ((!) xs) (drop k [0..<length xs])" by (simp add: drop_map)
  finally show ?thesis by simp
qed

text \<open>
  C3 (as amended). Take a table as the parser gives it (every element its own identity,
  all below \<open>n\<close>; no text between the elements, as in WordprocessingML) whose rows are
  children of the table and hold no rows, and which has
  a row, so that the header detection gives the index \<open>start\<close> (0 or 1) of its first
  bullet row; let the paragraphs of the first cell of every bullet row be children of
  the cell, and let every bullet of the section have a text. When there are more
  bullets than bullet rows, let there be a bullet row, and let the last bullet row
  and the text of the bullet written into it hold no character that XML does not
  allow. Then the rewrite succeeds, and the rows of the table afterwards are: the rows
  before \<open>start\<close> as they were; then the bullet rows paired in order with the bullets,
  each with the first paragraph of its first cell replaced, as the last child of the
  cell, by the new paragraph that holds the text of its bullet (a bullet row without a
  cell or a paragraph is as it was), the bullet rows beyond the bullets being gone;
  then, for each bullet beyond the bullet rows, a copy of the last bullet row as it is
  then, made by the round trip through the serializer, with the first paragraph of its
  first cell replaced in the same way for the text of that bullet. So there are as many
  bullet rows as bullets.
\<close>

theorem update_table_content_rows:
  assumes dist: "distinct (map ident (iter t))"
    and below: "\<forall>e \<in> set (iter t). ident e < n"
    and flat: "\<forall>c \<in> set (children t). findall W_tr c = []"
    and start: "start_row_index (findall W_tr t) sec = Inr start"
    and pd: "\<forall>r \<in> set (drop start (findall W_tr t)). paragraphs_direct r"
    and texts: "\<forall>b \<in> set (get_list (bullet_points sec)). bullet_text b \<noteq> None"
    and tmpl: "length (findall W_tr t) - start < length (get_list (bullet_points sec)) \<longrightarrow>
        drop start (findall W_tr t) \<noteq> []
        \<and> serializable (last (drop start (findall W_tr t)))
        \<and> list_all xml_char
            (get_str (bullet_text
               (get_list (bullet_points sec) ! (length (findall W_tr t) - start - 1))))"
  shows "\<exists>st' updated appended.
      update_table_content (ident t) sec \<lparr>trees = [t], fresh = n\<rparr> = Inr st'
      \<and> findall W_tr (hd (trees st')) = take start (findall W_tr t) @ updated @ appended
      \<and> list_all2 (\<lambda>r' (r, b). \<exists>k. r' = updated_row k (get_str (bullet_text b)) r)
            updated (zip (drop start (findall W_tr t)) (get_list (bullet_points sec)))
      \<and> list_all2 (\<lambda>r' b. \<exists>k k' template m.
                      clone k (last updated) = Inr (template, m)
                      \<and> r' = updated_row k' (get_str (bullet_text b)) template)
            appended
            (drop (length (findall W_tr t) - start) (get_list (bullet_points sec)))
      \<and> length (findall W_tr (hd (trees st'))) = start + length (get_list (bullet_points sec))"
proof -
  define rs where "rs = findall W_tr t"
  define bs where "bs = get_list (bullet_points sec)"
  define brs where "brs = drop start rs"
  obtain tid tg a x cs where t: "t = Elem tid tg a x cs" by (cases t)
  from flat t have flat_cs: "\<forall>c \<in> set cs. findall W_tr c = []" by simp
  from findall_children[OF flat_cs] have rs: "rs = filter is_row cs" by (simp add: rs_def t)
  from start_row_index_Inr[OF start] have rs_ne: "rs \<noteq> []" and s1: "start \<le> 1"
    by (simp_all add: rs_def)
  then have s_le: "start \<le> length rs" by (cases rs) auto
  from split_filter[of cs is_row start] obtain pre todo where
    cs: "cs = pre @ todo" and fpre0: "filter is_row pre = take start (filter is_row cs)"
    and ftodo0: "filter is_row todo = drop start (filter is_row cs)"
    by blast
  from fpre0 have fpre: "filter is_row pre = take start rs" by (simp only: rs)
  from ftodo0 have ftodo: "filter is_row todo = brs" by (simp only: rs brs_def)
  let ?st0 = "\<lparr>trees = [t], fresh = n\<rparr>"
  have tr0: "trees ?st0 = Elem tid tg a x (pre @ todo) # []" by (simp add: t cs)
  have ok0: "fresh_ok ?st0"
    by (rule fresh_okI) (use below in simp)
  note d = distinct_iter_Elem[OF dist[unfolded t]]
  from d(1) have tid_todo: "tid \<notin> ident ` set (iters todo)" by (simp add: cs image_Un)
  from d(2) have disj: "ident ` set (iters pre) \<inter> ident ` set (iters todo) = {}"
    and dtodo: "distinct (map ident (iters todo))"
    by (simp_all add: cs)
  have pdtodo: "\<forall>r \<in> set todo. is_row r \<longrightarrow> paragraphs_direct r"
  proof (intro ballI impI)
    fix r assume "r \<in> set todo" "is_row r"
    then have "r \<in> set (filter is_row todo)" by simp
    with ftodo pd show "paragraphs_direct r" by (simp add: brs_def rs_def)
  qed
  have texts': "\<forall>b \<in> set bs. bullet_text b \<noteq> None" using texts by (simp add: bs_def)
  define kids where "kids = fst (rewritten n 0 bs todo)"
  from update_or_remove_rows_flat[OF tr0 ok0 tid_todo disj dtodo pdtodo texts', of 0]
  obtain junk1 n1 where
    l1: "update_or_remove_rows tid bs 0 (map ident brs) ?st0 =
          Inr \<lparr>trees = Elem tid tg a x (pre @ kids) # junk1, fresh = n1\<rparr>"
    and ok1: "fresh_ok \<lparr>trees = Elem tid tg a x (pre @ kids) # junk1, fresh = n1\<rparr>"
    by (auto simp: kids_def ftodo)
  let ?st1 = "\<lparr>trees = Elem tid tg a x (pre @ kids) # junk1, fresh = n1\<rparr>"
  have dr: "deref ?st0 (ident t) = Some t" by (rule deref_single)
  have utc: "update_table_content (ident t) sec ?st0 =
      add_rows tid bs (map ident brs) [length brs ..< length bs] ?st1"
    using dr start l1 by (simp add: update_table_content_def Let_def rs_def bs_def brs_def t)
  define R where "R = filter is_row kids"
  from rewritten_rows[of n 0 bs todo]
  have relR: "list_all2 (\<lambda>r' (r, b). \<exists>k. r' = updated_row k (get_str (bullet_text b)) r)
      R (zip brs bs)"
    by (simp add: R_def kids_def ftodo)
  then have lenR: "length R = min (length brs) (length bs)"
    by (simp add: list_all2_lengthD)
  have flat_pre: "\<forall>c \<in> set pre. findall W_tr c = []" using flat_cs cs by simp
  have flat_todo: "\<forall>c \<in> set todo. findall W_tr c = []" using flat_cs cs by simp
  from rewritten_flat[OF flat_todo] have flat_kids: "\<forall>c \<in> set kids. findall W_tr c = []"
    by (simp add: kids_def)
  have len_brs: "length brs = length rs - start" by (simp add: brs_def)
  show ?thesis
  proof (cases "length bs \<le> length brs")
    case True
    then have idx: "[length brs ..< length bs] = []" by simp
    have res: "update_table_content (ident t) sec ?st0 = Inr ?st1"
      by (simp add: utc idx)
    have "findall W_tr (Elem tid tg a x (pre @ kids)) = filter is_row (pre @ kids)"
      by (rule findall_children) (use flat_pre flat_kids in auto)
    then have rows: "findall W_tr (hd (trees ?st1)) = take start rs @ R @ []"
      by (simp add: fpre R_def)
    have app: "list_all2 (\<lambda>r' b. \<exists>k k' template m.
                      clone k (last R) = Inr (template, m)
                      \<and> r' = updated_row k' (get_str (bullet_text b)) template)
            [] (drop (length rs - start) bs)"
      using True by (simp add: len_brs)
    have len: "length (findall W_tr (hd (trees ?st1))) = start + length bs"
      using rows lenR True s_le by simp
    from res rows relR app len show ?thesis
      unfolding rs_def[symmetric] bs_def[symmetric] brs_def[symmetric]
      by (intro exI[of _ ?st1] exI[of _ R] exI[of _ "[]"]) (simp add: brs_def)
  next
    case False
    then have grow: "length brs < length bs" by simp
    then have "length (findall W_tr t) - start < length (get_list (bullet_points sec))"
      by (simp add: brs_def rs_def bs_def)
    with tmpl have tm: "drop start rs \<noteq> []" "serializable (last (drop start rs))"
      "list_all xml_char (get_str (bullet_text (bs ! (length rs - start - 1))))"
      unfolding rs_def bs_def by blast+
    have brs_ne: "brs \<noteq> []" unfolding brs_def by (rule tm(1))
    have ser_last: "serializable (last brs)" unfolding brs_def by (rule tm(2))
    have legal: "list_all xml_char (get_str (bullet_text (bs ! (length brs - 1))))"
      unfolding len_brs by (rule tm(3))
    have 1: "filter is_row todo \<noteq> []" using brs_ne ftodo by simp
    have 2: "length (filter is_row todo) \<le> length bs - 0" using grow ftodo by simp
    have 4: "\<forall>y \<in> ident ` set (iters todo). y < n"
    proof
      fix y assume "y \<in> ident ` set (iters todo)"
      then obtain e where "e \<in> set (iters todo)" "ident e = y" by (metis imageE)
      with below show "y < n" by (auto simp: t cs)
    qed
    define rL where "rL = last brs"
    from rewritten_last_row[OF 1 2 dtodo 4] obtain xs k ys where
      kids: "kids = xs @ updated_row k (get_str (bullet_text (bs ! (0 + length brs - 1)))) rL # ys"
      and nx: "ident rL \<notin> ident ` set (iters xs)"
      and ys: "filter is_row ys = []"
      and mem: "rL \<in> set todo"
      by (auto simp: kids_def ftodo rL_def)
    define cL where "cL = updated_row k (get_str (bullet_text (bs ! (0 + length brs - 1)))) rL"
    have rL_row: "is_row rL"
    proof -
      have "rL \<in> set (filter is_row todo)" using brs_ne by (simp add: ftodo rL_def)
      then show ?thesis by simp
    qed
    have rL_in: "ident rL \<in> ident ` set (iters todo)"
      using mem roots_in_iters[of todo] by blast
    have idc: "ident cL = ident rL" by (simp add: cL_def)
    from rL_in tid_todo have tid_ne: "tid \<noteq> ident cL" by (auto simp: idc)
    from rL_in disj have "ident rL \<notin> ident ` set (iters pre)" by blast
    with nx have nx': "ident cL \<notin> ident ` set (iters (pre @ xs))"
      by (simp add: idc image_Un)
    have pdL: "paragraphs_direct cL"
      unfolding cL_def
      using pdtodo mem rL_row distinct_iters_member[OF dtodo mem]
      by (intro updated_row_paragraphs_direct) auto
    have serL: "serializable cL"
      unfolding cL_def
      using ser_last legal by (intro updated_row_serializable) (simp_all add: rL_def)
    have tr1: "trees ?st1 = Elem tid tg a x ((pre @ xs) @ cL # ys) # junk1"
      by (simp add: kids cL_def)
    have mb: "map ident brs \<noteq> []" using brs_ne by simp
    have lb: "last (map ident brs) = ident cL"
      using brs_ne by (simp add: last_map rL_def idc)
    have ib: "\<forall>i \<in> set [length brs ..< length bs]. i < length bs" by simp
    from add_rows_flat[OF tr1 ok1 tid_ne nx' pdL mb lb ib texts' serL] obtain junk' n' new where
      ar: "add_rows tid bs (map ident brs) [length brs ..< length bs] ?st1 =
        Inr \<lparr>trees = Elem tid tg a x ((pre @ xs) @ cL # ys @ new) # junk', fresh = n'\<rparr>"
      and rel: "list_all2 (\<lambda>r' i. \<exists>k k'. r' = updated_row k' (get_str (bullet_text (bs ! i)))
                                        (fst (parsed k cL)))
           new [length brs ..< length bs]"
      by blast
    let ?st2 = "\<lparr>trees = Elem tid tg a x ((pre @ xs) @ cL # ys @ new) # junk', fresh = n'\<rparr>"
    have cL_kids: "cL \<in> set kids" by (simp add: kids cL_def)
    with flat_kids have cL_flat: "findall W_tr cL = []" by blast
    have new_props: "is_row r' \<and> findall W_tr r' = []" if "r' \<in> set new" for r'
    proof -
      from that rel obtain k k' i where
        "r' = updated_row k' (get_str (bullet_text (bs ! i))) (fst (parsed k cL))"
        by (auto simp: list_all2_conv_all_nth in_set_conv_nth)
      with rL_row idc parsed_flat[OF cL_flat, of k] updated_row_flat show ?thesis
        by (simp add: cL_def)
    qed
    have "findall W_tr (Elem tid tg a x (pre @ kids @ new)) = filter is_row (pre @ kids @ new)"
      by (rule findall_children) (use flat_pre flat_kids new_props in auto)
    moreover have "filter is_row new = new" using new_props by (simp add: filter_id_conv)
    ultimately have rows: "findall W_tr (hd (trees ?st2)) = take start rs @ R @ new"
      by (simp add: fpre R_def kids cL_def)
    have "R = filter is_row xs @ [cL]" using ys rL_row by (simp add: R_def kids cL_def)
    then have lastR: "last R = cL" by simp
    have cloned: "\<exists>k k' template m. clone k cL = Inr (template, m)
            \<and> r' = updated_row k' s template"
      if "\<exists>k k'. r' = updated_row k' s (fst (parsed k cL))" for r' s
    proof -
      from that obtain k k' where r': "r' = updated_row k' s (fst (parsed k cL))" by blast
      have "clone k cL = Inr (fst (parsed k cL), snd (parsed k cL))"
        using clone_Inr[OF serL, of k] by simp
      with r' show ?thesis by blast
    qed
    have "list_all2 (\<lambda>r' i. \<exists>k k' template m. clone k cL = Inr (template, m)
            \<and> r' = updated_row k' (get_str (bullet_text (bs ! i))) template)
           new [length brs ..< length bs]"
      by (rule list_all2_mono[OF rel]) (rule cloned)
    then have "list_all2 (\<lambda>r' b. \<exists>k k' template m. clone k cL = Inr (template, m)
            \<and> r' = updated_row k' (get_str (bullet_text b)) template)
            new (map ((!) bs) [length brs ..< length bs])"
      by (simp add: list_all2_map2)
    then have app: "list_all2 (\<lambda>r' b. \<exists>k k' template m.
                      clone k (last R) = Inr (template, m)
                      \<and> r' = updated_row k' (get_str (bullet_text b)) template)
            new (drop (length rs - start) bs)"
      by (simp add: drop_nths lastR len_brs)
    from rel have "length new = length bs - length brs" by (simp add: list_all2_lengthD)
    with rows lenR grow s_le
    have len: "length (findall W_tr (hd (trees ?st2))) = start + length bs" by simp
    have res: "update_table_content (ident t) sec ?st0 = Inr ?st2"
      by (simp add: utc ar)
    from res rows relR app len show ?thesis
      unfolding rs_def[symmetric] bs_def[symmetric] brs_def[symmetric]
      by (intro exI[of _ ?st2] exI[of _ R] exI[of _ new]) (simp add: brs_def)
  qed
qed

text \<open>
  C3 as stated fails: on a table that has only its header row, a section with one
  bullet ends the rewrite in \<open>IndexError\<close> (there is no bullet row to copy); a bullet
  row without a cell is not rewritten to its bullet; on a table without rows the rewrite
  ends in \<open>IndexError\<close> at the header detection; and with a form feed in the text of the
  bullet written into the last bullet row, the copy of that row ends the rewrite in
  \<open>ParseError\<close>.
\<close>

theorem update_table_content_rows_counterexample:
  "update_table_content 1 (led_section [''Led X''])
      \<lparr>trees = [header_only_table], fresh = 30\<rparr> = Inl IndexError
   \<and> update_table_content 1 (led_section [''Led X''])
      \<lparr>trees = [cell_less_table], fresh = 30\<rparr> = Inr \<lparr>trees = [cell_less_table], fresh = 30\<rparr>
   \<and> update_table_content 1 (led_section ['' ''])
      \<lparr>trees = [rowless_table], fresh = 30\<rparr> = Inl IndexError
   \<and> update_table_content 1 (led_section [''Led X'', form_feed_text, ''Built Y''])
      \<lparr>trees = [headed_table], fresh = 40\<rparr> = Inl ParseError"
  by (simp add: led_section_def header_only_table_def cell_less_table_def text_row_def
      rowless_table_def headed_table_def form_feed_text_def bullet_def eval_rewrite)

text \<open>
  The witness: five bullet rows and two bullets, and a header row with two bullet rows
  and four bullets; the tables afterwards as the structure extractor reads them.
\<close>

theorem update_table_content_rows_witness:
  "(\<exists>st'. update_table_content 1 (led_section [''Led X'', ''Built Y''])
            \<lparr>trees = [five_row_table], fresh = 60\<rparr> = Inr st'
         \<and> parse_table (hd (trees st')) =
             \<lparr>rows = [[''Led X''], [''Built Y'']], total_rows = 2, total_columns = 1\<rparr>)
   \<and> (\<exists>st'. update_table_content 1
            (led_section [''Led X'', ''Built Y'', ''Shipped Z'', ''Wrote W''])
            \<lparr>trees = [headed_table], fresh = 40\<rparr> = Inr st'
         \<and> parse_table (hd (trees st')) =
             \<lparr>rows = [[''Engineer at Acme''], [''Led X''], [''Built Y''], [''Shipped Z''],
                      [''Wrote W'']],
              total_rows = 5, total_columns = 1\<rparr>)"
proof -
  let ?s2 = "led_section [''Led X'', ''Built Y'']"
  let ?s4 = "led_section [''Led X'', ''Built Y'', ''Shipped Z'', ''Wrote W'']"
  have b2: "get_list (bullet_points ?s2) = [bullet ''Led X'', bullet ''Built Y'']"
    and b4: "get_list (bullet_points ?s4) =
      [bullet ''Led X'', bullet ''Built Y'', bullet ''Shipped Z'', bullet ''Wrote W'']"
    by (simp_all add: led_section_def get_list_def)
  have r5: "findall W_tr five_row_table =
      [text_row 10 ''Did a'', text_row 20 ''Did b'', text_row 30 ''Did c'',
       text_row 40 ''Did d'', text_row 50 ''Did e'']"
    by (simp add: five_row_table_def text_row_def eval_xml)
  have r3: "findall W_tr headed_table =
      [text_row 10 ''Engineer at Acme'', text_row 20 ''Did a'', text_row 30 ''Did b'']"
    by (simp add: headed_table_def text_row_def eval_xml)
  have pd: "paragraphs_direct (text_row k s)" for k s
    by (simp add: paragraphs_direct_def text_row_def eval_xml)
  have fl: "findall W_tr (text_row k s) = []" for k s
    by (simp add: text_row_def eval_xml)
  have st0: "start_row_index (text_row k ''Did a'' # others) (led_section texts) = Inr 0"
    for k others texts
    by (simp add: start_row_index_def led_section_def text_row_def extract_row_text_def
        eval_xml get_str_def py_strip_def py_isspace_def)
  have st1: "start_row_index (text_row k ''Engineer at Acme'' # others) (led_section texts)
      = Inr 1"
    for k others texts
    by (simp add: start_row_index_def led_section_def text_row_def extract_row_text_def
        eval_xml get_str_def py_strip_def py_isspace_def)
  have row: "updated_row k s (text_row i s0) =
      Elem i W_tr [] None
        [Elem (i + 1) W_tc [] None
           [Elem k W_p [] None [Elem (k + 1) W_r [] None [Elem (k + 2) W_t [] (Some s) []]]]]"
    for k s i s0
    by (simp add: updated_row_def text_row_def eval_xml new_paragraph_def)
  have copy: "r' = Elem k W_tr [] None
        [Elem (Suc k) W_tc [] None
           [Elem k' W_p [] None [Elem (k' + 1) W_r [] None [Elem (k' + 2) W_t [] (Some s) []]]]]"
    if "clone k (updated_row k0 ''Built Y'' (text_row 30 ''Did b'')) = Inr (template, m)"
      and "r' = updated_row k' s template"
    for r' k k0 k' s template m
  proof -
    from that(1) have "template =
        Elem k W_tr [] None
          [Elem (Suc k) W_tc [] None
             [Elem (Suc (Suc k)) W_p [] None
                [Elem (Suc (Suc (Suc k))) W_r [] None
                   [Elem (Suc (Suc (Suc (Suc k)))) W_t [] (Some ''Built Y'') []]]]]"
      by (auto simp: row clone_def serializable_def xml_element_def xml_char_def
          split: if_splits)
    with that(2) show ?thesis
      by (simp add: updated_row_def eval_xml new_paragraph_def)
  qed
  have a1: "distinct (map ident (iter five_row_table))"
    by (simp add: five_row_table_def text_row_def)
  have a2: "\<forall>e \<in> set (iter five_row_table). ident e < 60"
    by (simp add: five_row_table_def text_row_def)
  have a3: "\<forall>c \<in> set (children five_row_table). findall W_tr c = []"
    by (simp add: five_row_table_def fl) (simp add: eval_xml)
  have a4: "start_row_index (findall W_tr five_row_table) ?s2 = Inr 0"
    unfolding r5 by (rule st0)
  have a5: "\<forall>r \<in> set (drop 0 (findall W_tr five_row_table)). paragraphs_direct r"
    unfolding r5 by (simp add: pd)
  have a6: "\<forall>b \<in> set (get_list (bullet_points ?s2)). bullet_text b \<noteq> None"
    unfolding b2 by (simp add: bullet_def)
  have a7: "length (findall W_tr five_row_table) - 0 < length (get_list (bullet_points ?s2)) \<longrightarrow>
        drop 0 (findall W_tr five_row_table) \<noteq> []
        \<and> serializable (last (drop 0 (findall W_tr five_row_table)))
        \<and> list_all xml_char
            (get_str (bullet_text
               (get_list (bullet_points ?s2) ! (length (findall W_tr five_row_table) - 0 - 1))))"
    unfolding r5 b2 by simp
  have c1: "distinct (map ident (iter headed_table))"
    by (simp add: headed_table_def text_row_def)
  have c2: "\<forall>e \<in> set (iter headed_table). ident e < 40"
    by (simp add: headed_table_def text_row_def)
  have c3: "\<forall>c \<in> set (children headed_table). findall W_tr c = []"
    by (simp add: headed_table_def fl) (simp add: eval_xml)
  have c4: "start_row_index (findall W_tr headed_table) ?s4 = Inr 1"
    unfolding r3 by (rule st1)
  have c5: "\<forall>r \<in> set (drop 1 (findall W_tr headed_table)). paragraphs_direct r"
    unfolding r3 by (simp add: pd)
  have c6: "\<forall>b \<in> set (get_list (bullet_points ?s4)). bullet_text b \<noteq> None"
    unfolding b4 by (simp add: bullet_def)
  have c7: "length (findall W_tr headed_table) - 1 < length (get_list (bullet_points ?s4)) \<longrightarrow>
        drop 1 (findall W_tr headed_table) \<noteq> []
        \<and> serializable (last (drop 1 (findall W_tr headed_table)))
        \<and> list_all xml_char
            (get_str (bullet_text
               (get_list (bullet_points ?s4) ! (length (findall W_tr headed_table) - 1 - 1))))"
    unfolding r3 b4
    by (simp add: text_row_def bullet_def get_str_def serializable_def xml_element_def
        xml_char_def)
  have i5: "ident five_row_table = 1" and i3: "ident headed_table = 1"
    by (simp_all add: five_row_table_def headed_table_def)
  from update_table_content_rows[OF a1 a2 a3 a4 a5 a6 a7] obtain st' updated appended where
    s: "update_table_content 1 ?s2 \<lparr>trees = [five_row_table], fresh = 60\<rparr> = Inr st'"
    and rows: "findall W_tr (hd (trees st')) =
        take 0 (findall W_tr five_row_table) @ updated @ appended"
    and upd: "list_all2 (\<lambda>r' (r, b). \<exists>k. r' = updated_row k (get_str (bullet_text b)) r)
        updated (zip (drop 0 (findall W_tr five_row_table)) (get_list (bullet_points ?s2)))"
    and app: "list_all2 (\<lambda>r' b. \<exists>k k' template m.
                      clone k (last updated) = Inr (template, m)
                      \<and> r' = updated_row k' (get_str (bullet_text b)) template)
        appended
        (drop (length (findall W_tr five_row_table) - 0) (get_list (bullet_points ?s2)))"
    unfolding i5 by blast
  from upd obtain k1 k2 where
    updated: "updated = [updated_row k1 ''Led X'' (text_row 10 ''Did a''),
                         updated_row k2 ''Built Y'' (text_row 20 ''Did b'')]"
    unfolding r5 b2 by (auto simp: list_all2_Cons2 bullet_def get_str_def)
  from app have appended: "appended = []" unfolding r5 b2 by simp
  have "parse_table (hd (trees st')) =
      parse_rows (updated @ appended)
        \<lparr>rows = [], total_rows = length (updated @ appended), total_columns = 0\<rparr>"
    by (simp add: parse_table_def rows)
  also have "\<dots> = \<lparr>rows = [[''Led X''], [''Built Y'']], total_rows = 2, total_columns = 1\<rparr>"
    unfolding updated appended row
    by (simp add: eval_xml extract_paragraph_text_def)
  finally have first: "parse_table (hd (trees st')) =
      \<lparr>rows = [[''Led X''], [''Built Y'']], total_rows = 2, total_columns = 1\<rparr>" .
  from update_table_content_rows[OF c1 c2 c3 c4 c5 c6 c7] obtain st'' updated' appended' where
    s': "update_table_content 1 ?s4 \<lparr>trees = [headed_table], fresh = 40\<rparr> = Inr st''"
    and rows': "findall W_tr (hd (trees st'')) =
        take 1 (findall W_tr headed_table) @ updated' @ appended'"
    and upd': "list_all2 (\<lambda>r' (r, b). \<exists>k. r' = updated_row k (get_str (bullet_text b)) r)
        updated' (zip (drop 1 (findall W_tr headed_table)) (get_list (bullet_points ?s4)))"
    and app': "list_all2 (\<lambda>r' b. \<exists>k k' template m.
                      clone k (last updated') = Inr (template, m)
                      \<and> r' = updated_row k' (get_str (bullet_text b)) template)
        appended'
        (drop (length (findall W_tr headed_table) - 1) (get_list (bullet_points ?s4)))"
    unfolding i3 by blast
  from upd' obtain k1 k2 where
    updated': "updated' = [updated_row k1 ''Led X'' (text_row 20 ''Did a''),
                           updated_row k2 ''Built Y'' (text_row 30 ''Did b'')]"
    unfolding r3 b4 by (auto simp: list_all2_Cons2 bullet_def get_str_def)
  from app' obtain k3 k3' t3 m3 k4 k4' t4 m4 where
    appended': "appended' = [updated_row k3' ''Shipped Z'' t3, updated_row k4' ''Wrote W'' t4]"
    and cl3: "clone k3 (updated_row k2 ''Built Y'' (text_row 30 ''Did b'')) = Inr (t3, m3)"
    and cl4: "clone k4 (updated_row k2 ''Built Y'' (text_row 30 ''Did b'')) = Inr (t4, m4)"
    unfolding r3 b4 updated' by (auto simp: list_all2_Cons2 bullet_def get_str_def)
  note new3 = copy[OF cl3 refl, of k3' "''Shipped Z''"]
    and new4 = copy[OF cl4 refl, of k4' "''Wrote W''"]
  have "parse_table (hd (trees st'')) =
      parse_rows (text_row 10 ''Engineer at Acme'' # updated' @ appended')
        \<lparr>rows = [], total_rows = Suc (length (updated' @ appended')), total_columns = 0\<rparr>"
    by (simp add: parse_table_def rows' r3)
  also have "\<dots> =
      \<lparr>rows = [[''Engineer at Acme''], [''Led X''], [''Built Y''], [''Shipped Z''],
               [''Wrote W'']],
       total_rows = 5, total_columns = 1\<rparr>"
    unfolding updated' appended' new3 new4 row
    by (simp add: text_row_def eval_xml extract_paragraph_text_def)
  finally have second: "parse_table (hd (trees st'')) =
      \<lparr>rows = [[''Engineer at Acme''], [''Led X''], [''Built Y''], [''Shipped Z''],
               [''Wrote W'']],
       total_rows = 5, total_columns = 1\<rparr>" .
  from s first s' second show ?thesis by blast
qed

end
